theory Spec2Isabelle
  imports Complex_Main "HOL-Library.Multiset"
begin

section \<open>Documents, schemas and results\<close>

text \<open>
  A document is the value Go's JSON decoder hands to the validator as an
  \<open>interface{}\<close>: \<open>nil\<close>, \<open>bool\<close>, \<open>float64\<close>, \<open>string\<close>, \<open>[]interface{}\<close> or
  \<open>map[string]interface{}\<close>. \<open>JOther\<close> stands for a non-nil Go value of any other
  kind (an \<open>int\<close>, a struct, ...), which a host can pass in through a Go loader.
  A \<open>float64\<close> is abstracted to a real number: the validator only divides, compares
  and tests integrality. A Go map is an association list with its keys; the order
  in which \<open>range\<close> visits the keys is not the order of that list but a choice of the
  Go runtime (see \<open>rangeKeys\<close> below).
\<close>

datatype json =
    JNull
  | JBool bool
  | JNumber real
  | JString string
  | JArray "json list"
  | JObject "(string \<times> json) list"
  | JOther string

text \<open>The \<open>reflect.Kind\<close> of a document node (\<open>reflect.ValueOf(nil).Kind()\<close> is \<open>Invalid\<close>).\<close>

datatype kind = KInvalid | KSlice | KMap | KBool | KString | KFloat64 | KOther

fun kindOf :: "json \<Rightarrow> kind" where
  "kindOf JNull = KInvalid"
| "kindOf (JBool b) = KBool"
| "kindOf (JNumber f) = KFloat64"
| "kindOf (JString s) = KString"
| "kindOf (JArray xs) = KSlice"
| "kindOf (JObject kvs) = KMap"
| "kindOf (JOther t) = KOther"

text \<open>
  Modelled from the spec: \<open>isKind\<close> (utils.go is not among the sources); the validator
  uses it as "the value's runtime kind is the given one", and its callers early-return
  on a mismatch.
\<close>

definition isKind :: "json \<Rightarrow> kind \<Rightarrow> bool" where
  "isKind what k = (kindOf what = k)"

text \<open>
  Modelled from the spec: \<open>isFloat64AnInteger\<close> (utils.go is not among the sources):
  a number is integer-valued iff \<open>floor(n) == n\<close>.
\<close>

definition isFloat64AnInteger :: "real \<Rightarrow> bool" where
  "isFloat64AnInteger n = (of_int \<lfloor>n\<rfloor> = n)"

text \<open>Go's map index expression \<open>m[k]\<close>: the zero value \<open>nil\<close> for a missing key.\<close>

definition mapIndex :: "(string \<times> json) list \<Rightarrow> string \<Rightarrow> json" where
  "mapIndex m k = (case map_of m k of Some v \<Rightarrow> v | None \<Rightarrow> JNull)"

text \<open>The comma-ok form \<open>_, ok := m[k]\<close>.\<close>

definition hasKey :: "(string \<times> 'a) list \<Rightarrow> string \<Rightarrow> bool" where
  "hasKey m k = (map_of m k \<noteq> None)"

text \<open>
  Modelled from the spec: the type set \<open>jsonSchemaType\<close> (its source file is not among
  the sources): a set over the seven type tags, untyped when empty.
\<close>

datatype jsonType =
  TYPE_ARRAY | TYPE_BOOLEAN | TYPE_INTEGER | TYPE_NUMBER | TYPE_NULL | TYPE_OBJECT | TYPE_STRING

type_synonym jsonSchemaType = "jsonType list"

definition IsTyped :: "jsonSchemaType \<Rightarrow> bool" where
  "IsTyped t = (t \<noteq> [])"

definition Contains :: "jsonSchemaType \<Rightarrow> jsonType \<Rightarrow> bool" where
  "Contains t x = (x \<in> set t)"

text \<open>
  The \<open>subSchema\<close> struct of subSchema.go, with the fields the validation phase reads.
  A nil pointer is \<open>None\<close>; an \<open>interface{}\<close> field that holds nil, a \<open>bool\<close> or a
  \<open>*subSchema\<close> is an \<open>additional\<close>; a dependency is a \<open>[]string\<close> or a \<open>*subSchema\<close>.
  The two Go maps are association lists. \<open>refSchema\<close> is the resolved \<open>$ref\<close> target, so
  a schema is the finite unfolding of its references (a cyclic reference graph has no
  value in this type).
\<close>

datatype subSchema = SubSchema
  (property: string)
  (types: jsonSchemaType)
  (refSchema: "subSchema option")
  (itemsChildren: "subSchema list")
  (itemsChildrenIsSingleSchema: bool)
  (propertiesChildren: "subSchema list")
  (multipleOf: "real option")
  (maximum: "real option")
  (exclusiveMaximum: "bool option")
  (minimum: "real option")
  (exclusiveMinimum: "bool option")
  (minLength: "int option")
  (maxLength: "int option")
  (pattern: "string option")
  (minProperties: "int option")
  (maxProperties: "int option")
  (required: "string list")
  (dependencies: "(string \<times> dependency) list")
  (additionalProperties: additional)
  (patternProperties: "(string \<times> subSchema) list")
  (minItems: "int option")
  (maxItems: "int option")
  (uniqueItems: "bool option")
  (additionalItems: additional)
  (enum: "string list")
  (oneOf: "subSchema list")
  (anyOf: "subSchema list")
  (allOf: "subSchema list")
  (not: "subSchema option")
and dependency = DependOnKeys "string list" | DependOnSchema subSchema
and additional = AdditionalNil | AdditionalBool bool | AdditionalSchema subSchema


subsection \<open>Contexts\<close>

text \<open>
  The persistent path that labels errors. jsonContext.go is not among the sources; the
  constructor is taken from its call sites, \<open>newJsonContext(head, tail)\<close> with a nil
  tail at the root.
\<close>

datatype jsonContext = JsonContext (head: string) (tail: "jsonContext option")

definition newJsonContext :: "string \<Rightarrow> jsonContext option \<Rightarrow> jsonContext" where
  "newJsonContext h t = JsonContext h t"

text \<open>The constant of the message file (\<open>STRING_CONTEXT_ROOT\<close>).\<close>

definition STRING_CONTEXT_ROOT :: string where
  "STRING_CONTEXT_ROOT = ''#''"

text \<open>The segments of a context, from the root to the head.\<close>

fun segments :: "jsonContext \<Rightarrow> string list" where
  "segments (JsonContext h None) = [h]"
| "segments (JsonContext h (Some t)) = segments t @ [h]"

fun joinWith :: "string \<Rightarrow> string list \<Rightarrow> string" where
  "joinWith d [] = []"
| "joinWith d [x] = x"
| "joinWith d (x # y # ys) = x @ d @ joinWith d (y # ys)"

text \<open>
  Modelled from the spec: \<open>jsonContext.String\<close> (jsonContext.go is not among the
  sources): the segments from the root, joined by dots.
\<close>

definition contextString :: "jsonContext \<Rightarrow> string" where
  "contextString c = joinWith ''.'' (segments c)"

text \<open>\<open>strconv.Itoa\<close> on an array index: the decimal digits.\<close>

definition digitChar :: "nat \<Rightarrow> char" where
  "digitChar d = char_of (48 + d)"

function Itoa :: "nat \<Rightarrow> string" where
  "Itoa n = (if n < 10 then [digitChar n] else Itoa (n div 10) @ [digitChar (n mod 10)])"
  by pat_completeness auto
termination
  by (relation "measure id") auto

declare Itoa.simps [simp del]

subsection \<open>Results\<close>

text \<open>
  What an error requires (\<open>Requirement interface{}\<close>) and the offending value
  (\<open>Value interface{}\<close>). Where the source stores the JSON rendering of a schema
  (\<open>marshalSubSchema\<close>, a pure function of the schema) the model stores the schema.
  The \<open>Description\<close> text is left out: its message templates are not among the sources
  and the error report (\<open>ResultMarshalerFunc\<close>) does not read it. The description of a
  \<open>patternProperties\<close> error lists the patterns (\<open>PatternPropertiesString\<close>) in the order
  of one more \<open>range\<close> over them, so that text can differ from one run to the next; an
  error of the model is an error of the code without its description.
\<close>

datatype requirement =
    ReqNil
  | ReqTypes jsonSchemaType
  | ReqSchemas "subSchema list"
  | ReqSchema subSchema
  | ReqStrings "string list"
  | ReqAdditional additional
  | ReqInt int
  | ReqNumber real
  | ReqPattern string
  | ReqPatternProperties "(string \<times> subSchema) list"

datatype errValue = ValNode json | ValEmptyProperty | ValNumber real

record ResultError =
  Context :: jsonContext
  Value :: errValue
  Attribute :: string
  Requirement :: requirement

record Result =
  errors :: "ResultError list"
  score :: int

definition emptyResult :: Result where
  "emptyResult = \<lparr>errors = [], score = 0\<rparr>"

definition Valid :: "Result \<Rightarrow> bool" where
  "Valid v = (length (errors v) = 0)"

definition addError ::
  "Result \<Rightarrow> jsonContext \<Rightarrow> string \<Rightarrow> requirement \<Rightarrow> errValue \<Rightarrow> Result" where
  "addError v context attr req val =
     v\<lparr>errors := errors v @ [\<lparr>Context = context, Value = val, Attribute = attr, Requirement = req\<rparr>],
       score := score v - 2\<rparr>"

definition mergeErrors :: "Result \<Rightarrow> Result \<Rightarrow> Result" where
  "mergeErrors v otherResult =
     v\<lparr>errors := errors v @ errors otherResult, score := score v + score otherResult\<rparr>"

definition incrementScore :: "Result \<Rightarrow> Result" where
  "incrementScore v = v\<lparr>score := score v + 1\<rparr>"

text \<open>
  \<open>getBestResult\<close>: sort by score, descending, and return the first result when its
  score differs from the second's. \<open>sort.Sort\<close> is modelled by a sort on the key
  \<open>- score\<close>; whatever a sort does with equal scores, the result returned is the
  same (lemma \<open>getBestResult_Some_iff\<close> below).
\<close>

definition sortByScore :: "Result list \<Rightarrow> Result list" where
  "sortByScore results = sort_key (\<lambda>r. - score r) results"

definition getBestResult :: "Result list \<Rightarrow> Result option" where
  "getBestResult results =
     (if length results > 1 then
        (let sorted = sortByScore results in
         if score (sorted ! 0) \<noteq> score (sorted ! 1) then Some (sorted ! 0) else None)
      else None)"

text \<open>The serialised report of \<open>ResultMarshalerFunc\<close>, before \<open>json.Marshal\<close>: for each
  location string the list of (keyword, requirement) stacks, in the order recorded.\<close>

definition errStack :: "ResultError \<Rightarrow> string \<times> requirement option" where
  "errStack rerr =
     (Attribute rerr, if Requirement rerr \<noteq> ReqNil then Some (Requirement rerr) else None)"

definition reportMap :: "Result \<Rightarrow> string \<Rightarrow> (string \<times> requirement option) list" where
  "reportMap res loc =
     map errStack (filter (\<lambda>rerr. contextString (Context rerr) = loc) (errors res))"

subsection \<open>Keywords\<close>

definition KEY_TYPE :: string where "KEY_TYPE = ''type''"
definition KEY_ADDITIONAL_ITEMS :: string where "KEY_ADDITIONAL_ITEMS = ''additionalItems''"
definition KEY_PATTERN_PROPERTIES :: string where "KEY_PATTERN_PROPERTIES = ''patternProperties''"
definition KEY_ADDITIONAL_PROPERTIES :: string where
  "KEY_ADDITIONAL_PROPERTIES = ''additionalProperties''"
definition KEY_MULTIPLE_OF :: string where "KEY_MULTIPLE_OF = ''multipleOf''"
definition KEY_MINIMUM :: string where "KEY_MINIMUM = ''minimum''"
definition KEY_MAXIMUM :: string where "KEY_MAXIMUM = ''maximum''"
definition KEY_EXCLUSIVE_MINIMUM :: string where "KEY_EXCLUSIVE_MINIMUM = ''exclusiveMinimum''"
definition KEY_EXCLUSIVE_MAXIMUM :: string where "KEY_EXCLUSIVE_MAXIMUM = ''exclusiveMaximum''"
definition KEY_MIN_LENGTH :: string where "KEY_MIN_LENGTH = ''minLength''"
definition KEY_MAX_LENGTH :: string where "KEY_MAX_LENGTH = ''maxLength''"
definition KEY_PATTERN :: string where "KEY_PATTERN = ''pattern''"
definition KEY_MIN_PROPERTIES :: string where "KEY_MIN_PROPERTIES = ''minProperties''"
definition KEY_MAX_PROPERTIES :: string where "KEY_MAX_PROPERTIES = ''maxProperties''"
definition KEY_DEPENDENCIES :: string where "KEY_DEPENDENCIES = ''dependencies''"
definition KEY_REQUIRED :: string where "KEY_REQUIRED = ''required''"
definition KEY_MIN_ITEMS :: string where "KEY_MIN_ITEMS = ''minItems''"
definition KEY_MAX_ITEMS :: string where "KEY_MAX_ITEMS = ''maxItems''"
definition KEY_UNIQUE_ITEMS :: string where "KEY_UNIQUE_ITEMS = ''uniqueItems''"
definition KEY_ENUM :: string where "KEY_ENUM = ''enum''"
definition KEY_ONE_OF :: string where "KEY_ONE_OF = ''oneOf''"
definition KEY_ANY_OF :: string where "KEY_ANY_OF = ''anyOf''"
definition KEY_ALL_OF :: string where "KEY_ALL_OF = ''allOf''"
definition KEY_NOT :: string where "KEY_NOT = ''not''"

section \<open>The validator\<close>

text \<open>
  What the validator takes from outside the repository, as parameters:
  \<^item> \<open>regexpMatchString pattern s\<close>: Go's \<open>regexp.MatchString\<close> (and \<open>Regexp.MatchString\<close>
    of the compiled \<open>pattern\<close>);
  \<^item> \<open>runeCount\<close>: \<open>utf8.RuneCount\<close> of the string's bytes;
  \<^item> \<open>marshalToJsonString\<close>: the canonical JSON text of \<open>json.Marshal\<close>, taken total
    (documents hold only values that \<open>json.Marshal\<close> accepts);
  \<^item> \<open>rangeKeys p ks\<close>: the order in which one execution of a \<open>range\<close> over a Go map
    with the keys \<open>ks\<close> visits them. The Go language leaves that order unspecified, and
    the runtime picks it anew each time a \<open>range\<close> statement is executed. The position
    \<open>p\<close> names the execution: the call sites passed from the root call of the run down
    to the loop, and the loop itself.

  The sites of a routine: the calls it makes that lead to a \<open>range\<close> (one site for each
  round of a loop: the index of the round for a loop over a slice, the key for a loop over
  a map) and its own \<open>range\<close> loops. The keys of a Go map are distinct, so no two
  executions of a \<open>range\<close> in a run have the same position, and every way in which a run
  can order its loops is a \<open>rangeKeys\<close>.
\<close>

datatype site =
    InAnyOf nat
  | InOneOf nat
  | InAllOf nat
  | InNot
  | InDependency string
  | InItem nat
  | InKey string
  | InAdditional string
  | InPattern string
  | InProperty nat
  | RangeDependencies
  | RangeObject
  | RangePatterns

record runtime =
  regexpMatchString :: "string \<Rightarrow> string \<Rightarrow> bool"
  runeCount :: "string \<Rightarrow> nat"
  marshalToJsonString :: "json \<Rightarrow> string"
  rangeKeys :: "site list \<Rightarrow> string list \<Rightarrow> string list"

text \<open>The runtime as a call made at site \<open>x\<close> sees it: its positions are below \<open>x\<close>.\<close>

definition atSite :: "runtime \<Rightarrow> site \<Rightarrow> runtime" where
  "atSite rt x = rt\<lparr>rangeKeys := (\<lambda>p. rangeKeys rt (x # p))\<rparr>"

definition isStringInSlice :: "string list \<Rightarrow> string \<Rightarrow> bool" where
  "isStringInSlice s what = (what \<in> set s)"

definition ContainsEnum :: "runtime \<Rightarrow> subSchema \<Rightarrow> json \<Rightarrow> bool" where
  "ContainsEnum rt s i = isStringInSlice (enum s) (marshalToJsonString rt i)"

definition validateCommon ::
  "runtime \<Rightarrow> subSchema \<Rightarrow> json \<Rightarrow> Result \<Rightarrow> jsonContext \<Rightarrow> Result" where
  "validateCommon rt currentSubSchema val result context =
     incrementScore
       (if length (enum currentSubSchema) > 0 then
          (if \<not> ContainsEnum rt currentSubSchema val
           then addError result context KEY_ENUM (ReqStrings (enum currentSubSchema)) (ValNode val)
           else result)
        else result)"

definition validateString ::
  "runtime \<Rightarrow> subSchema \<Rightarrow> json \<Rightarrow> Result \<Rightarrow> jsonContext \<Rightarrow> Result" where
  "validateString rt currentSubSchema val result context =
     (case val of
        JString stringValue \<Rightarrow>
          (let r1 = (case minLength currentSubSchema of
                       Some m \<Rightarrow>
                         if int (runeCount rt stringValue) < m
                         then addError result context KEY_MIN_LENGTH (ReqInt m) (ValNode val)
                         else result
                     | None \<Rightarrow> result);
               r2 = (case maxLength currentSubSchema of
                       Some m \<Rightarrow>
                         if int (runeCount rt stringValue) > m
                         then addError r1 context KEY_MAX_LENGTH (ReqInt m) (ValNode val)
                         else r1
                     | None \<Rightarrow> r1);
               r3 = (case pattern currentSubSchema of
                       Some p \<Rightarrow>
                         if \<not> regexpMatchString rt p stringValue
                         then addError r2 context KEY_PATTERN (ReqPattern p) (ValNode val)
                         else r2
                     | None \<Rightarrow> r2)
           in incrementScore r3)
      | _ \<Rightarrow> result)"

definition validateNumber ::
  "subSchema \<Rightarrow> json \<Rightarrow> Result \<Rightarrow> jsonContext \<Rightarrow> Result" where
  "validateNumber currentSubSchema val result context =
     (case val of
        JNumber float64Value \<Rightarrow>
          (let r1 = (case multipleOf currentSubSchema of
                       Some m \<Rightarrow>
                         if \<not> isFloat64AnInteger (float64Value / m)
                         then addError result context KEY_MULTIPLE_OF (ReqNumber m)
                                (ValNumber float64Value)
                         else result
                     | None \<Rightarrow> result);
               r2 = (case maximum currentSubSchema of
                       Some m \<Rightarrow>
                         if exclusiveMaximum currentSubSchema = Some True then
                           (if float64Value \<ge> m
                            then addError r1 context KEY_EXCLUSIVE_MAXIMUM (ReqNumber m)
                                   (ValNumber float64Value)
                            else r1)
                         else
                           (if float64Value > m
                            then addError r1 context KEY_MAXIMUM (ReqNumber m)
                                   (ValNumber float64Value)
                            else r1)
                     | None \<Rightarrow> r1);
               r3 = (case minimum currentSubSchema of
                       Some m \<Rightarrow>
                         if exclusiveMinimum currentSubSchema = Some True then
                           (if float64Value \<le> m
                            then addError r2 context KEY_EXCLUSIVE_MINIMUM (ReqNumber m)
                                   (ValNumber float64Value)
                            else r2)
                         else
                           (if float64Value < m
                            then addError r2 context KEY_MINIMUM (ReqNumber m)
                                   (ValNumber float64Value)
                            else r2)
                     | None \<Rightarrow> r2)
           in incrementScore r3)
      | _ \<Rightarrow> result)"


text \<open>Every sub-schema is smaller than the schema that holds it (for termination).\<close>

lemma size_in_list: "a \<in> set xs \<Longrightarrow> size (a::subSchema) < Suc (size_list size xs)"
  by (induction xs) auto

lemma size_in_alist:
  "(k, a) \<in> set xs \<Longrightarrow> size (a::subSchema) < Suc (size_list (size_prod (\<lambda>_. 0) size) xs)"
  by (induction xs) auto

lemma size_in_deps:
  "(k, DependOnSchema a) \<in> set xs \<Longrightarrow> size a < Suc (size_list (size_prod (\<lambda>_. 0) size) xs)"
  by (induction xs) auto

lemma size_anyOf: "a \<in> set (anyOf s) \<Longrightarrow> size a < size s"
  using size_in_list[of a "anyOf s"] by (cases s) auto

lemma size_oneOf: "a \<in> set (oneOf s) \<Longrightarrow> size a < size s"
  using size_in_list[of a "oneOf s"] by (cases s) auto

lemma size_allOf: "a \<in> set (allOf s) \<Longrightarrow> size a < size s"
  using size_in_list[of a "allOf s"] by (cases s) auto

lemma size_anyOf_enumerate: "(i, a) \<in> set (enumerate n (anyOf s)) \<Longrightarrow> size a < size s"
  by (auto simp add: in_set_enumerate_eq intro: size_anyOf)

lemma size_oneOf_enumerate: "(i, a) \<in> set (enumerate n (oneOf s)) \<Longrightarrow> size a < size s"
  by (auto simp add: in_set_enumerate_eq intro: size_oneOf)

lemma size_allOf_enumerate: "(i, a) \<in> set (enumerate n (allOf s)) \<Longrightarrow> size a < size s"
  by (auto simp add: in_set_enumerate_eq intro: size_allOf)

lemma size_propertiesChildren: "a \<in> set (propertiesChildren s) \<Longrightarrow> size a < size s"
  using size_in_list[of a "propertiesChildren s"] by (cases s) auto

lemma size_propertiesChildren_enumerate:
  "(i, a) \<in> set (enumerate n (propertiesChildren s)) \<Longrightarrow> size a < size s"
  by (auto simp add: in_set_enumerate_eq intro: size_propertiesChildren)

lemma size_itemsChildren: "a \<in> set (itemsChildren s) \<Longrightarrow> size a < size s"
  using size_in_list[of a "itemsChildren s"] by (cases s) auto

lemma size_itemsChildren_hd: "itemsChildren s = a # others \<Longrightarrow> size a < size s"
  using size_itemsChildren[of a s] by simp

lemma size_itemsChildren_nth:
  "i < length (itemsChildren s) \<Longrightarrow> size (itemsChildren s ! i) < size s"
  using size_itemsChildren[of "itemsChildren s ! i" s] by simp

lemma size_not: "not s = Some a \<Longrightarrow> size a < size s"
  by (cases s) auto

lemma size_refSchema: "refSchema s = Some a \<Longrightarrow> size a < size s"
  by (cases s) auto

lemma size_additionalItems: "additionalItems s = AdditionalSchema a \<Longrightarrow> size a < size s"
  by (cases s) auto

lemma size_additionalProperties:
  "additionalProperties s = AdditionalSchema a \<Longrightarrow> size a < size s"
  by (cases s) auto

lemma size_patternProperties:
  "map_of (patternProperties s) pk = Some pv \<Longrightarrow> size pv < size s"
  using size_in_alist[of pk pv "patternProperties s"] by (cases s) (auto dest: map_of_SomeD)

lemma size_dependencies:
  "map_of (dependencies s) k = Some (DependOnSchema d) \<Longrightarrow> size d < size s"
  using size_in_deps[of k d "dependencies s"] by (cases s) (auto dest: map_of_SomeD)

text \<open>
  The walker and the routines it calls, mutually recursive through the sub-schemas. Each
  Go loop is a \<open>fold\<close> over the list it ranges over, with the variables it assigns as
  the folded state (the result last); a \<open>range\<close> over a Go map folds over \<open>rangeKeys\<close> of
  its keys, at the position of the loop. A loop over the alternatives of \<open>anyOf\<close>, \<open>oneOf\<close>
  or \<open>allOf\<close>, or over the properties children, folds over the slice with the indices of
  its elements, which only name the sites of the calls.
  Where \<open>itemsChildrenIsSingleSchema\<close> is set on a schema without an items child (the
  schema builder never does that) Go would panic on \<open>itemsChildren[0]\<close>; the model
  leaves the result as it is there.
\<close>

function
  validateRecursive ::
    "runtime \<Rightarrow> subSchema \<Rightarrow> json \<Rightarrow> Result \<Rightarrow> jsonContext \<Rightarrow> Result" and
  subValidateWithContext ::
    "runtime \<Rightarrow> subSchema \<Rightarrow> json \<Rightarrow> jsonContext \<Rightarrow> Result" and
  validateSchema ::
    "runtime \<Rightarrow> subSchema \<Rightarrow> json \<Rightarrow> Result \<Rightarrow> jsonContext \<Rightarrow> Result" and
  validateArray ::
    "runtime \<Rightarrow> subSchema \<Rightarrow> json list \<Rightarrow> Result \<Rightarrow> jsonContext \<Rightarrow> Result" and
  validateObject ::
    "runtime \<Rightarrow> subSchema \<Rightarrow> (string \<times> json) list \<Rightarrow> Result \<Rightarrow> jsonContext \<Rightarrow> Result" and
  validatePatternProperty ::
    "runtime \<Rightarrow> subSchema \<Rightarrow> string \<Rightarrow> json \<Rightarrow> Result \<Rightarrow> jsonContext
       \<Rightarrow> (bool \<times> bool) \<times> Result"
where
  "validateRecursive rt currentSubSchema currentNode result context =
     (case refSchema currentSubSchema of
        Some ref \<Rightarrow> validateRecursive rt ref currentNode result context
      | None \<Rightarrow>
        (case currentNode of
           JNull \<Rightarrow>
             if IsTyped (types currentSubSchema) \<and> \<not> Contains (types currentSubSchema) TYPE_NULL
             then addError result context KEY_TYPE (ReqTypes (types currentSubSchema))
                    (ValNode currentNode)
             else
               (let r1 = validateSchema rt currentSubSchema currentNode result context;
                    r2 = validateCommon rt currentSubSchema currentNode r1 context
                in incrementScore r2)
         | JArray castCurrentNode \<Rightarrow>
             if IsTyped (types currentSubSchema) \<and> \<not> Contains (types currentSubSchema) TYPE_ARRAY
             then addError result context KEY_TYPE (ReqTypes (types currentSubSchema))
                    (ValNode currentNode)
             else
               (let r1 = validateSchema rt currentSubSchema currentNode result context;
                    r2 = validateArray rt currentSubSchema castCurrentNode r1 context;
                    r3 = validateCommon rt currentSubSchema currentNode r2 context
                in incrementScore r3)
         | JObject castCurrentNode \<Rightarrow>
             if IsTyped (types currentSubSchema) \<and> \<not> Contains (types currentSubSchema) TYPE_OBJECT
             then addError result context KEY_TYPE (ReqTypes (types currentSubSchema))
                    (ValNode currentNode)
             else
               (let r1 = validateSchema rt currentSubSchema currentNode result context;
                    r2 = validateObject rt currentSubSchema castCurrentNode r1 context;
                    r3 = validateCommon rt currentSubSchema currentNode r2 context;
                    r4 = fold (\<lambda>(i, pSchema) r.
                                 case map_of castCurrentNode (property pSchema) of
                                   Some nextNode \<Rightarrow>
                                     validateRecursive (atSite rt (InProperty i)) pSchema
                                       nextNode r
                                       (newJsonContext (property pSchema) (Some context))
                                 | None \<Rightarrow> r)
                              (enumerate 0 (propertiesChildren currentSubSchema)) r3
                in incrementScore r4)
         | JBool val \<Rightarrow>
             if IsTyped (types currentSubSchema) \<and> \<not> Contains (types currentSubSchema) TYPE_BOOLEAN
             then addError result context KEY_TYPE (ReqTypes (types currentSubSchema))
                    (ValNode currentNode)
             else
               (let r1 = validateSchema rt currentSubSchema currentNode result context;
                    r2 = validateNumber currentSubSchema currentNode r1 context;
                    r3 = validateCommon rt currentSubSchema currentNode r2 context;
                    r4 = validateString rt currentSubSchema currentNode r3 context
                in incrementScore r4)
         | JString val \<Rightarrow>
             if IsTyped (types currentSubSchema) \<and> \<not> Contains (types currentSubSchema) TYPE_STRING
             then addError result context KEY_TYPE (ReqTypes (types currentSubSchema))
                    (ValNode currentNode)
             else
               (let r1 = validateSchema rt currentSubSchema currentNode result context;
                    r2 = validateNumber currentSubSchema currentNode r1 context;
                    r3 = validateCommon rt currentSubSchema currentNode r2 context;
                    r4 = validateString rt currentSubSchema currentNode r3 context
                in incrementScore r4)
         | JNumber val \<Rightarrow>
             (let isInteger = isFloat64AnInteger val;
                  validType = (Contains (types currentSubSchema) TYPE_NUMBER
                               \<or> (isInteger \<and> Contains (types currentSubSchema) TYPE_INTEGER))
              in if IsTyped (types currentSubSchema) \<and> \<not> validType
                 then addError result context KEY_TYPE (ReqTypes (types currentSubSchema))
                        (ValNode currentNode)
                 else
                   (let r1 = validateSchema rt currentSubSchema currentNode result context;
                        r2 = validateNumber currentSubSchema currentNode r1 context;
                        r3 = validateCommon rt currentSubSchema currentNode r2 context;
                        r4 = validateString rt currentSubSchema currentNode r3 context
                    in incrementScore r4))
         | JOther t \<Rightarrow> incrementScore result))"
| "subValidateWithContext rt v document context =
     validateRecursive rt v document emptyResult context"
| "validateSchema rt currentSubSchema currentNode result context =
     (let r1 =
        (if length (anyOf currentSubSchema) > 0 then
           (let (validatedAnyOf, results) =
                  fold (\<lambda>(i, anyOfSchema) (validatedAnyOf, results).
                          if \<not> validatedAnyOf then
                            (let validationResult =
                                   subValidateWithContext (atSite rt (InAnyOf i)) anyOfSchema
                                     currentNode context
                             in (Valid validationResult, results @ [validationResult]))
                          else (validatedAnyOf, results))
                       (enumerate 0 (anyOf currentSubSchema)) (False, [])
            in if \<not> validatedAnyOf then
                 (case getBestResult results of
                    Some bestValidationResult \<Rightarrow> mergeErrors result bestValidationResult
                  | None \<Rightarrow>
                      addError result context KEY_ANY_OF (ReqSchemas (anyOf currentSubSchema))
                        (ValNode currentNode))
               else result)
         else result);
        r2 =
        (if length (oneOf currentSubSchema) > 0 then
           (let (results, nbValidated) =
                  fold (\<lambda>(i, oneOfSchema) (results, nbValidated).
                          (let validationResult =
                                 subValidateWithContext (atSite rt (InOneOf i)) oneOfSchema
                                   currentNode context
                           in if Valid validationResult then (results, nbValidated + 1)
                              else (results @ [validationResult], nbValidated)))
                       (enumerate 0 (oneOf currentSubSchema)) ([], 0::nat)
            in if nbValidated \<noteq> 1 then
                 (case (if nbValidated = 0 then getBestResult results else None) of
                    Some bestValidationResult \<Rightarrow> mergeErrors r1 bestValidationResult
                  | None \<Rightarrow>
                      addError r1 context KEY_ONE_OF (ReqSchemas (oneOf currentSubSchema))
                        (ValNode currentNode))
               else r1)
         else r1);
        r3 =
        (if length (allOf currentSubSchema) > 0 then
           (let (nbValidated, r) =
                  fold (\<lambda>(i, allOfSchema) (nbValidated, r).
                          (let validationResult =
                                 subValidateWithContext (atSite rt (InAllOf i)) allOfSchema
                                   currentNode context
                           in (if Valid validationResult then nbValidated + 1 else nbValidated,
                               mergeErrors r validationResult)))
                       (enumerate 0 (allOf currentSubSchema)) (0::nat, r2)
            in if nbValidated \<noteq> length (allOf currentSubSchema)
               then addError r context KEY_ALL_OF (ReqSchemas (allOf currentSubSchema))
                      (ValNode currentNode)
               else r)
         else r2);
        r4 =
        (case not currentSubSchema of
           Some notSchema \<Rightarrow>
             (let validationResult =
                    subValidateWithContext (atSite rt InNot) notSchema currentNode context
              in if Valid validationResult
                 then addError r3 context KEY_NOT (ReqSchema notSchema) (ValNode currentNode)
                 else r3)
         | None \<Rightarrow> r3);
        r5 =
        (if length (dependencies currentSubSchema) > 0 then
           (case currentNode of
              JObject m \<Rightarrow>
                fold (\<lambda>elementKey r.
                        case map_of (dependencies currentSubSchema) elementKey of
                          Some (DependOnKeys dependency) \<Rightarrow>
                            fold (\<lambda>dependOnKey r'.
                                    if \<not> hasKey m dependOnKey
                                    then addError r' (newJsonContext elementKey (Some context))
                                           KEY_DEPENDENCIES (ReqStrings dependency)
                                           (ValNode currentNode)
                                    else r')
                                 dependency r
                        | Some (DependOnSchema dependency) \<Rightarrow>
                            validateRecursive (atSite rt (InDependency elementKey)) dependency
                              currentNode r context
                        | None \<Rightarrow> r)
                     (rangeKeys rt [RangeDependencies] (map fst m)) r4
            | _ \<Rightarrow> r4)
         else r4)
      in incrementScore r5)"
| "validateArray rt currentSubSchema val result context =
     (let nbItems = int (length val);
          r1 =
          (if itemsChildrenIsSingleSchema currentSubSchema then
             (case itemsChildren currentSubSchema of
                [] \<Rightarrow> result
              | item0 # others \<Rightarrow>
                  fold (\<lambda>i r.
                          (let subContext = newJsonContext (Itoa i) (Some context);
                               validationResult =
                                 subValidateWithContext (atSite rt (InItem i)) item0 (val ! i)
                                   subContext
                           in mergeErrors r validationResult))
                       [0..<length val] result)
           else
             (if length (itemsChildren currentSubSchema) > 0 then
                (let nbItems = length (itemsChildren currentSubSchema);
                     nbValues = length val
                 in if nbItems = nbValues then
                      fold (\<lambda>i r.
                              (let subContext = newJsonContext (Itoa i) (Some context);
                                   validationResult =
                                     subValidateWithContext (atSite rt (InItem i))
                                       (itemsChildren currentSubSchema ! i) (val ! i) subContext
                               in mergeErrors r validationResult))
                           [0..<nbItems] result
                    else if nbItems < nbValues then
                      (case additionalItems currentSubSchema of
                         AdditionalBool b \<Rightarrow>
                           if \<not> b
                           then addError result context KEY_ADDITIONAL_ITEMS
                                  (ReqAdditional (additionalItems currentSubSchema))
                                  (ValNode (JArray val))
                           else result
                       | AdditionalSchema additionalItemSchema \<Rightarrow>
                           fold (\<lambda>i r.
                                   (let subContext = newJsonContext (Itoa i) (Some context);
                                        validationResult =
                                          subValidateWithContext (atSite rt (InItem i))
                                            additionalItemSchema (val ! i) subContext
                                    in mergeErrors r validationResult))
                                [nbItems..<nbValues] result
                       | AdditionalNil \<Rightarrow> result)
                    else result)
              else result));
          r2 =
          (case minItems currentSubSchema of
             Some m \<Rightarrow>
               if nbItems < m
               then addError r1 context KEY_MIN_ITEMS (ReqInt m) (ValNode (JArray val))
               else r1
           | None \<Rightarrow> r1);
          r3 =
          (case maxItems currentSubSchema of
             Some m \<Rightarrow>
               if nbItems > m
               then addError r2 context KEY_MAX_ITEMS (ReqInt m) (ValNode (JArray val))
               else r2
           | None \<Rightarrow> r2);
          r4 =
          (if uniqueItems currentSubSchema = Some True then
             (let (stringifiedItems, r) =
                    fold (\<lambda>v (stringifiedItems, r).
                            (let vString = marshalToJsonString rt v
                             in (stringifiedItems @ [vString],
                                 if isStringInSlice stringifiedItems vString
                                 then addError r context KEY_UNIQUE_ITEMS ReqNil
                                        (ValNode (JArray val))
                                 else r)))
                         val ([], r3)
              in r)
           else r3)
      in incrementScore r4)"
| "validateObject rt currentSubSchema val result context =
     (let r1 =
          (case minProperties currentSubSchema of
             Some m \<Rightarrow>
               if int (length val) < m
               then addError result context KEY_MIN_PROPERTIES (ReqInt m) (ValNode (JObject val))
               else result
           | None \<Rightarrow> result);
          r2 =
          (case maxProperties currentSubSchema of
             Some m \<Rightarrow>
               if int (length val) > m
               then addError r1 context KEY_MAX_PROPERTIES (ReqInt m) (ValNode (JObject val))
               else r1
           | None \<Rightarrow> r1);
          r3 =
          fold (\<lambda>requiredProperty r.
                  if hasKey val requiredProperty then incrementScore r
                  else addError r (newJsonContext requiredProperty (Some context)) KEY_REQUIRED
                         ReqNil ValEmptyProperty)
               (required currentSubSchema) r2;
          r4 =
          (case additionalProperties currentSubSchema of
             AdditionalBool b \<Rightarrow>
               if \<not> b then
                 fold (\<lambda>pk r.
                         (let found = list_ex (\<lambda>spValue. pk = property spValue)
                                        (propertiesChildren currentSubSchema);
                              ((pp_has, pp_match), r') =
                                validatePatternProperty (atSite rt (InKey pk)) currentSubSchema pk
                                  (mapIndex val pk) r context
                          in if found then
                               (if pp_has \<and> \<not> pp_match
                                then addError r' (newJsonContext pk (Some context))
                                       KEY_ADDITIONAL_PROPERTIES
                                       (ReqPatternProperties (patternProperties currentSubSchema))
                                       ValEmptyProperty
                                else r')
                             else
                               (if \<not> pp_has \<or> \<not> pp_match
                                then addError r' (newJsonContext pk (Some context))
                                       KEY_ADDITIONAL_PROPERTIES ReqNil ValEmptyProperty
                                else r')))
                      (rangeKeys rt [RangeObject] (map fst val)) r3
               else r3
           | AdditionalSchema additionalPropertiesSchema \<Rightarrow>
               fold (\<lambda>pk r.
                       (let found = list_ex (\<lambda>spValue. pk = property spValue)
                                      (propertiesChildren currentSubSchema);
                            ((pp_has, pp_match), r') =
                              validatePatternProperty (atSite rt (InKey pk)) currentSubSchema pk
                                (mapIndex val pk) r context
                        in if found then
                             (if pp_has \<and> \<not> pp_match
                              then mergeErrors r'
                                     (subValidateWithContext (atSite rt (InAdditional pk))
                                        additionalPropertiesSchema (mapIndex val pk) context)
                              else r')
                           else
                             (if \<not> pp_has \<or> \<not> pp_match
                              then mergeErrors r'
                                     (subValidateWithContext (atSite rt (InAdditional pk))
                                        additionalPropertiesSchema (mapIndex val pk) context)
                              else r')))
                    (rangeKeys rt [RangeObject] (map fst val)) r3
           | AdditionalNil \<Rightarrow>
               fold (\<lambda>pk r.
                       (let ((pp_has, pp_match), r') =
                              validatePatternProperty (atSite rt (InKey pk)) currentSubSchema pk
                                (mapIndex val pk) r context
                        in if pp_has \<and> \<not> pp_match
                           then addError r' (newJsonContext pk (Some context))
                                  KEY_PATTERN_PROPERTIES
                                  (ReqPatternProperties (patternProperties currentSubSchema))
                                  (ValNode (JObject val))
                           else r'))
                    (rangeKeys rt [RangeObject] (map fst val)) r3)
      in incrementScore r4)"
| "validatePatternProperty rt currentSubSchema key val result context =
     (let ((has, validatedkey), r) =
            fold (\<lambda>pk ((has, validatedkey), r).
                    case map_of (patternProperties currentSubSchema) pk of
                      Some pv \<Rightarrow>
                        if regexpMatchString rt pk key then
                          (let subContext = newJsonContext key (Some context);
                               validationResult =
                                 subValidateWithContext (atSite rt (InPattern pk)) pv val
                                   subContext
                           in ((True, if Valid validationResult then True else validatedkey),
                               mergeErrors r validationResult))
                        else ((has, validatedkey), r)
                    | None \<Rightarrow> ((has, validatedkey), r))
                 (rangeKeys rt [RangePatterns] (map fst (patternProperties currentSubSchema)))
                 ((False, False), result)
      in if \<not> validatedkey then ((has, False), r) else ((has, True), incrementScore r))"
  by pat_completeness auto

termination
  apply (relation "inv_image (less_than <*lex*> less_than)
    (\<lambda>x. case x of
       Inl (Inl (rt, s, n, r, c)) \<Rightarrow> (size s, 3::nat)
     | Inl (Inr (Inl (rt, s, d, c))) \<Rightarrow> (size s, 4)
     | Inl (Inr (Inr (rt, s, n, r, c))) \<Rightarrow> (size s, 2)
     | Inr (Inl (rt, s, v, r, c)) \<Rightarrow> (size s, 2)
     | Inr (Inr (Inl (rt, s, v, r, c))) \<Rightarrow> (size s, 2)
     | Inr (Inr (Inr (rt, s, k, v, r, c))) \<Rightarrow> (size s, 1))")
  apply (intro wf_inv_image wf_lex_prod wf_less_than)
  apply (simp_all add: size_anyOf_enumerate size_oneOf_enumerate size_allOf_enumerate
       size_propertiesChildren
       size_itemsChildren_hd size_itemsChildren_nth size_not size_refSchema size_additionalItems
       size_additionalProperties size_patternProperties size_dependencies)
  apply (blast intro: size_anyOf_enumerate size_oneOf_enumerate size_allOf_enumerate
           size_propertiesChildren_enumerate)+
  done

declare validateRecursive.simps [simp del]
declare subValidateWithContext.simps [simp del]
declare validateSchema.simps [simp del]
declare validateArray.simps [simp del]
declare validateObject.simps [simp del]
declare validatePatternProperty.simps [simp del]

text \<open>
  \<open>Schema.Validate\<close>, after the loader has produced the document: a fresh result,
  the root context, and the walk.
\<close>

definition Validate :: "runtime \<Rightarrow> subSchema \<Rightarrow> json \<Rightarrow> Result" where
  "Validate rt rootSchema document =
     validateRecursive rt rootSchema document emptyResult
       (newJsonContext STRING_CONTEXT_ROOT None)"

section \<open>A concrete runtime and example schemas\<close>

text \<open>
  A runtime for the examples: patterns without metacharacters (Go's \<open>MatchString\<close> then
  tests for a substring), ASCII strings (one rune per byte), the canonical text of
  documents whose numbers are integers, and every \<open>range\<close> visiting the keys in list order.
\<close>

fun literalMatch :: "string \<Rightarrow> string \<Rightarrow> bool" where
  "literalMatch p [] = (p = [])"
| "literalMatch p (c # cs) = (take (length p) (c # cs) = p \<or> literalMatch p cs)"

fun marshalAscii :: "json \<Rightarrow> string" where
  "marshalAscii JNull = ''null''"
| "marshalAscii (JBool b) = (if b then ''true'' else ''false'')"
| "marshalAscii (JNumber x) = (if x < 0 then ''-'' else []) @ Itoa (nat \<lfloor>\<bar>x\<bar>\<rfloor>)"
| "marshalAscii (JString s) = [CHR 0x22] @ s @ [CHR 0x22]"
| "marshalAscii (JArray xs) = ''['' @ joinWith '','' (map marshalAscii xs) @ '']''"
| "marshalAscii (JObject kvs) =
     ''{'' @ joinWith '','' (map (\<lambda>(k, v). [CHR 0x22] @ k @ [CHR 0x22] @ '':'' @ marshalAscii v) kvs)
       @ ''}''"
| "marshalAscii (JOther t) = t"

definition goRuntime :: runtime where
  "goRuntime = \<lparr>regexpMatchString = literalMatch, runeCount = length,
     marshalToJsonString = marshalAscii, rangeKeys = (\<lambda>p ks. ks)\<rparr>"

text \<open>The same runtime, with every \<open>range\<close> visiting the keys in the reverse order.\<close>

definition goRuntimeRev :: runtime where
  "goRuntimeRev = goRuntime\<lparr>rangeKeys := (\<lambda>p. rev)\<rparr>"

text \<open>
  A runtime whose executions of \<open>range\<close> do not all follow one order: list order, except
  for the \<open>range\<close> over the patterns in the round of the key \<open>ba\<close> of the root object, which
  is reversed.
\<close>

definition goRuntimeMixed :: runtime where
  "goRuntimeMixed =
     goRuntime\<lparr>rangeKeys := (\<lambda>p ks. if p = [InKey ''ba'', RangePatterns] then rev ks else ks)\<rparr>"

definition rootContext :: jsonContext where
  "rootContext = newJsonContext STRING_CONTEXT_ROOT None"

text \<open>\<open>{}\<close>\<close>

definition emptySchema :: subSchema where
  "emptySchema = SubSchema '''' [] None [] False [] None None None None None None None None None None []
       [] AdditionalNil [] None None None AdditionalNil [] [] [] [] None"

text \<open>\<open>{"type": "string"}\<close>\<close>

definition stringSchema :: subSchema where
  "stringSchema = SubSchema '''' [TYPE_STRING] None [] False [] None None None None None None None None
       None None [] [] AdditionalNil [] None None None AdditionalNil [] [] [] [] None"

text \<open>\<open>{"anyOf": [{"type": "string"}]}\<close>\<close>

definition anyOfString :: subSchema where
  "anyOfString = SubSchema '''' [] None [] False [] None None None None None None None None None None []
       [] AdditionalNil [] None None None AdditionalNil [] [] [stringSchema] [] None"

text \<open>\<open>{"oneOf": [{"type": "string"}]}\<close>\<close>

definition oneOfString :: subSchema where
  "oneOfString = SubSchema '''' [] None [] False [] None None None None None None None None None None []
       [] AdditionalNil [] None None None AdditionalNil [] [stringSchema] [] [] None"

text \<open>\<open>{"items": [{"type": "string"}]}\<close>\<close>

definition tupleString :: subSchema where
  "tupleString = SubSchema '''' [] None [stringSchema] False [] None None None None None None None None
       None None [] [] AdditionalNil [] None None None AdditionalNil [] [] [] [] None"

text \<open>\<open>{"items": [{"type": "string"}, {"type": "string"}]}\<close>\<close>

definition tupleStringString :: subSchema where
  "tupleStringString = SubSchema '''' [] None [stringSchema, stringSchema] False [] None None None None None
       None None None None None [] [] AdditionalNil [] None None None AdditionalNil []
       [] [] [] None"

text \<open>\<open>{"items": [{"type": "string"}], "additionalItems": false}\<close>\<close>

definition tupleStringNoMore :: subSchema where
  "tupleStringNoMore = SubSchema '''' [] None [stringSchema] False [] None None None None None None None None
       None None [] [] AdditionalNil [] None None None (AdditionalBool False) [] [] []
       [] None"

text \<open>\<open>{"minLength": 5, "pattern": "x"}\<close>\<close>

definition longWithX :: subSchema where
  "longWithX = SubSchema '''' [] None [] False [] None None None None None (Some 5) None (Some ''x'')
       None None [] [] AdditionalNil [] None None None AdditionalNil [] [] [] [] None"

text \<open>\<open>{"type": "number"}\<close>\<close>

definition numberSchema :: subSchema where
  "numberSchema = SubSchema '''' [TYPE_NUMBER] None [] False [] None None None None None None None None
       None None [] [] AdditionalNil [] None None None AdditionalNil [] [] [] [] None"

text \<open>The schema \<open>{}\<close> of a declared property \<open>a\<close>.\<close>

definition propertyA :: subSchema where
  "propertyA = SubSchema ''a'' [] None [] False [] None None None None None None None None None None []
       [] AdditionalNil [] None None None AdditionalNil [] [] [] [] None"

text \<open>\<open>{"properties": {"a": {}}, "patternProperties": {"a": {"type": "string"}},
  "additionalProperties": false}\<close>\<close>

definition closedDeclaredPattern :: subSchema where
  "closedDeclaredPattern = SubSchema '''' [] None [] False [propertyA] None None None None None None None None None
       None [] [] (AdditionalBool False) [(''a'', stringSchema)] None None None
       AdditionalNil [] [] [] [] None"

text \<open>\<open>{"patternProperties": {"a": {}, "b": {"type": "string"}},
  "additionalProperties": false}\<close>\<close>

definition closedTwoPatterns :: subSchema where
  "closedTwoPatterns = SubSchema '''' [] None [] False [] None None None None None None None None None None []
       [] (AdditionalBool False) [(''a'', emptySchema), (''b'', stringSchema)] None None
       None AdditionalNil [] [] [] [] None"

text \<open>\<open>{"patternProperties": {"a": {"type": "string"}, "b": {"type": "number"}}}\<close>\<close>

definition stringAndNumberPatterns :: subSchema where
  "stringAndNumberPatterns = SubSchema '''' [] None [] False [] None None None None None None None None None None []
       [] AdditionalNil [(''a'', stringSchema), (''b'', numberSchema)] None None None
       AdditionalNil [] [] [] [] None"

section \<open>Stages, invariants and relations used in the proofs\<close>

subsection \<open>The routines, stage by stage\<close>

text \<open>
  Names for the loops and stages of the routines, each the text of the routine's own
  definition, so that the routines can be reasoned about one stage at a time.
\<close>

definition anyOfStep ::
  "runtime \<Rightarrow> json \<Rightarrow> jsonContext \<Rightarrow> nat \<times> subSchema \<Rightarrow> bool \<times> Result list
     \<Rightarrow> bool \<times> Result list" where
  "anyOfStep rt currentNode context =
     (\<lambda>(i, anyOfSchema) (validatedAnyOf, results).
        if \<not> validatedAnyOf then
          (let validationResult =
                 subValidateWithContext (atSite rt (InAnyOf i)) anyOfSchema currentNode context
           in (Valid validationResult, results @ [validationResult]))
        else (validatedAnyOf, results))"

definition anyOfStage ::
  "runtime \<Rightarrow> subSchema \<Rightarrow> json \<Rightarrow> jsonContext \<Rightarrow> Result \<Rightarrow> Result" where
  "anyOfStage rt currentSubSchema currentNode context result =
     (if length (anyOf currentSubSchema) > 0 then
        (let (validatedAnyOf, results) =
               fold (anyOfStep rt currentNode context) (enumerate 0 (anyOf currentSubSchema))
                 (False, [])
         in if \<not> validatedAnyOf then
              (case getBestResult results of
                 Some bestValidationResult \<Rightarrow> mergeErrors result bestValidationResult
               | None \<Rightarrow>
                   addError result context KEY_ANY_OF (ReqSchemas (anyOf currentSubSchema))
                     (ValNode currentNode))
            else result)
      else result)"

definition oneOfStep ::
  "runtime \<Rightarrow> json \<Rightarrow> jsonContext \<Rightarrow> nat \<times> subSchema \<Rightarrow> Result list \<times> nat
     \<Rightarrow> Result list \<times> nat" where
  "oneOfStep rt currentNode context =
     (\<lambda>(i, oneOfSchema) (results, nbValidated).
        (let validationResult =
               subValidateWithContext (atSite rt (InOneOf i)) oneOfSchema currentNode context
         in if Valid validationResult then (results, nbValidated + 1)
            else (results @ [validationResult], nbValidated)))"

definition oneOfStage ::
  "runtime \<Rightarrow> subSchema \<Rightarrow> json \<Rightarrow> jsonContext \<Rightarrow> Result \<Rightarrow> Result" where
  "oneOfStage rt currentSubSchema currentNode context r1 =
     (if length (oneOf currentSubSchema) > 0 then
        (let (results, nbValidated) =
               fold (oneOfStep rt currentNode context) (enumerate 0 (oneOf currentSubSchema))
                 ([], 0::nat)
         in if nbValidated \<noteq> 1 then
              (case (if nbValidated = 0 then getBestResult results else None) of
                 Some bestValidationResult \<Rightarrow> mergeErrors r1 bestValidationResult
               | None \<Rightarrow>
                   addError r1 context KEY_ONE_OF (ReqSchemas (oneOf currentSubSchema))
                     (ValNode currentNode))
            else r1)
      else r1)"

definition allOfStep ::
  "runtime \<Rightarrow> json \<Rightarrow> jsonContext \<Rightarrow> nat \<times> subSchema \<Rightarrow> nat \<times> Result
     \<Rightarrow> nat \<times> Result" where
  "allOfStep rt currentNode context =
     (\<lambda>(i, allOfSchema) (nbValidated, r).
        (let validationResult =
               subValidateWithContext (atSite rt (InAllOf i)) allOfSchema currentNode context
         in (if Valid validationResult then nbValidated + 1 else nbValidated,
             mergeErrors r validationResult)))"

definition allOfStage ::
  "runtime \<Rightarrow> subSchema \<Rightarrow> json \<Rightarrow> jsonContext \<Rightarrow> Result \<Rightarrow> Result" where
  "allOfStage rt currentSubSchema currentNode context r2 =
     (if length (allOf currentSubSchema) > 0 then
        (let (nbValidated, r) =
               fold (allOfStep rt currentNode context) (enumerate 0 (allOf currentSubSchema))
                 (0::nat, r2)
         in if nbValidated \<noteq> length (allOf currentSubSchema)
            then addError r context KEY_ALL_OF (ReqSchemas (allOf currentSubSchema))
                   (ValNode currentNode)
            else r)
      else r2)"

definition notStage ::
  "runtime \<Rightarrow> subSchema \<Rightarrow> json \<Rightarrow> jsonContext \<Rightarrow> Result \<Rightarrow> Result" where
  "notStage rt currentSubSchema currentNode context r3 =
     (case not currentSubSchema of
        Some notSchema \<Rightarrow>
          (let validationResult =
                 subValidateWithContext (atSite rt InNot) notSchema currentNode context
           in if Valid validationResult
              then addError r3 context KEY_NOT (ReqSchema notSchema) (ValNode currentNode)
              else r3)
      | None \<Rightarrow> r3)"

definition dependencyStep ::
  "runtime \<Rightarrow> subSchema \<Rightarrow> json \<Rightarrow> (string \<times> json) list \<Rightarrow> jsonContext \<Rightarrow> string
     \<Rightarrow> Result \<Rightarrow> Result" where
  "dependencyStep rt currentSubSchema currentNode m context =
     (\<lambda>elementKey r.
        case map_of (dependencies currentSubSchema) elementKey of
          Some (DependOnKeys dependency) \<Rightarrow>
            fold (\<lambda>dependOnKey r'.
                    if \<not> hasKey m dependOnKey
                    then addError r' (newJsonContext elementKey (Some context))
                           KEY_DEPENDENCIES (ReqStrings dependency)
                           (ValNode currentNode)
                    else r')
                 dependency r
        | Some (DependOnSchema dependency) \<Rightarrow>
            validateRecursive (atSite rt (InDependency elementKey)) dependency
              currentNode r context
        | None \<Rightarrow> r)"

definition dependenciesStage ::
  "runtime \<Rightarrow> subSchema \<Rightarrow> json \<Rightarrow> jsonContext \<Rightarrow> Result \<Rightarrow> Result" where
  "dependenciesStage rt currentSubSchema currentNode context r4 =
     (if length (dependencies currentSubSchema) > 0 then
        (case currentNode of
           JObject m \<Rightarrow>
             fold (dependencyStep rt currentSubSchema currentNode m context)
               (rangeKeys rt [RangeDependencies] (map fst m)) r4
         | _ \<Rightarrow> r4)
      else r4)"

definition itemStep ::
  "runtime \<Rightarrow> (nat \<Rightarrow> subSchema) \<Rightarrow> json list \<Rightarrow> jsonContext \<Rightarrow> nat \<Rightarrow> Result \<Rightarrow> Result" where
  "itemStep rt itemSchema val context =
     (\<lambda>i r.
        (let subContext = newJsonContext (Itoa i) (Some context);
             validationResult =
               subValidateWithContext (atSite rt (InItem i)) (itemSchema i) (val ! i) subContext
         in mergeErrors r validationResult))"

definition itemsStage ::
  "runtime \<Rightarrow> subSchema \<Rightarrow> json list \<Rightarrow> jsonContext \<Rightarrow> Result \<Rightarrow> Result" where
  "itemsStage rt currentSubSchema val context result =
     (if itemsChildrenIsSingleSchema currentSubSchema then
        (case itemsChildren currentSubSchema of
           [] \<Rightarrow> result
         | item0 # others \<Rightarrow>
             fold (itemStep rt (\<lambda>i. item0) val context) [0..<length val] result)
      else
        (if length (itemsChildren currentSubSchema) > 0 then
           (let nbItems = length (itemsChildren currentSubSchema);
                nbValues = length val
            in if nbItems = nbValues then
                 fold (itemStep rt (\<lambda>i. itemsChildren currentSubSchema ! i) val context)
                   [0..<nbItems] result
               else if nbItems < nbValues then
                 (case additionalItems currentSubSchema of
                    AdditionalBool b \<Rightarrow>
                      if \<not> b
                      then addError result context KEY_ADDITIONAL_ITEMS
                             (ReqAdditional (additionalItems currentSubSchema))
                             (ValNode (JArray val))
                      else result
                  | AdditionalSchema additionalItemSchema \<Rightarrow>
                      fold (itemStep rt (\<lambda>i. additionalItemSchema) val context)
                        [nbItems..<nbValues] result
                  | AdditionalNil \<Rightarrow> result)
               else result)
         else result))"

definition minItemsStage ::
  "subSchema \<Rightarrow> int \<Rightarrow> json list \<Rightarrow> jsonContext \<Rightarrow> Result \<Rightarrow> Result" where
  "minItemsStage currentSubSchema nbItems val context r1 =
     (case minItems currentSubSchema of
        Some m \<Rightarrow>
          if nbItems < m
          then addError r1 context KEY_MIN_ITEMS (ReqInt m) (ValNode (JArray val))
          else r1
      | None \<Rightarrow> r1)"

definition maxItemsStage ::
  "subSchema \<Rightarrow> int \<Rightarrow> json list \<Rightarrow> jsonContext \<Rightarrow> Result \<Rightarrow> Result" where
  "maxItemsStage currentSubSchema nbItems val context r2 =
     (case maxItems currentSubSchema of
        Some m \<Rightarrow>
          if nbItems > m
          then addError r2 context KEY_MAX_ITEMS (ReqInt m) (ValNode (JArray val))
          else r2
      | None \<Rightarrow> r2)"

definition uniqueStep ::
  "runtime \<Rightarrow> json list \<Rightarrow> jsonContext \<Rightarrow> json \<Rightarrow> string list \<times> Result
     \<Rightarrow> string list \<times> Result" where
  "uniqueStep rt val context =
     (\<lambda>v (stringifiedItems, r).
        (let vString = marshalToJsonString rt v
         in (stringifiedItems @ [vString],
             if isStringInSlice stringifiedItems vString
             then addError r context KEY_UNIQUE_ITEMS ReqNil (ValNode (JArray val))
             else r)))"

definition uniqueItemsStage ::
  "runtime \<Rightarrow> subSchema \<Rightarrow> json list \<Rightarrow> jsonContext \<Rightarrow> Result \<Rightarrow> Result" where
  "uniqueItemsStage rt currentSubSchema val context r3 =
     (if uniqueItems currentSubSchema = Some True then
        (let (stringifiedItems, r) = fold (uniqueStep rt val context) val ([], r3)
         in r)
      else r3)"

definition minPropertiesStage ::
  "subSchema \<Rightarrow> (string \<times> json) list \<Rightarrow> jsonContext \<Rightarrow> Result \<Rightarrow> Result" where
  "minPropertiesStage currentSubSchema val context result =
     (case minProperties currentSubSchema of
        Some m \<Rightarrow>
          if int (length val) < m
          then addError result context KEY_MIN_PROPERTIES (ReqInt m) (ValNode (JObject val))
          else result
      | None \<Rightarrow> result)"

definition maxPropertiesStage ::
  "subSchema \<Rightarrow> (string \<times> json) list \<Rightarrow> jsonContext \<Rightarrow> Result \<Rightarrow> Result" where
  "maxPropertiesStage currentSubSchema val context r1 =
     (case maxProperties currentSubSchema of
        Some m \<Rightarrow>
          if int (length val) > m
          then addError r1 context KEY_MAX_PROPERTIES (ReqInt m) (ValNode (JObject val))
          else r1
      | None \<Rightarrow> r1)"

definition requiredStep ::
  "(string \<times> json) list \<Rightarrow> jsonContext \<Rightarrow> string \<Rightarrow> Result \<Rightarrow> Result" where
  "requiredStep val context =
     (\<lambda>requiredProperty r.
        if hasKey val requiredProperty then incrementScore r
        else addError r (newJsonContext requiredProperty (Some context)) KEY_REQUIRED
               ReqNil ValEmptyProperty)"

definition additionalFalseStep ::
  "runtime \<Rightarrow> subSchema \<Rightarrow> (string \<times> json) list \<Rightarrow> jsonContext \<Rightarrow> string \<Rightarrow> Result \<Rightarrow> Result"
  where
  "additionalFalseStep rt currentSubSchema val context =
     (\<lambda>pk r.
        (let found = list_ex (\<lambda>spValue. pk = property spValue)
                       (propertiesChildren currentSubSchema);
             ((pp_has, pp_match), r') =
               validatePatternProperty (atSite rt (InKey pk)) currentSubSchema pk
                 (mapIndex val pk) r context
         in if found then
              (if pp_has \<and> \<not> pp_match
               then addError r' (newJsonContext pk (Some context))
                      KEY_ADDITIONAL_PROPERTIES
                      (ReqPatternProperties (patternProperties currentSubSchema))
                      ValEmptyProperty
               else r')
            else
              (if \<not> pp_has \<or> \<not> pp_match
               then addError r' (newJsonContext pk (Some context))
                      KEY_ADDITIONAL_PROPERTIES ReqNil ValEmptyProperty
               else r')))"

definition additionalSchemaStep ::
  "runtime \<Rightarrow> subSchema \<Rightarrow> subSchema \<Rightarrow> (string \<times> json) list \<Rightarrow> jsonContext \<Rightarrow> string
     \<Rightarrow> Result \<Rightarrow> Result" where
  "additionalSchemaStep rt currentSubSchema additionalPropertiesSchema val context =
     (\<lambda>pk r.
        (let found = list_ex (\<lambda>spValue. pk = property spValue)
                       (propertiesChildren currentSubSchema);
             ((pp_has, pp_match), r') =
               validatePatternProperty (atSite rt (InKey pk)) currentSubSchema pk
                 (mapIndex val pk) r context
         in if found then
              (if pp_has \<and> \<not> pp_match
               then mergeErrors r'
                      (subValidateWithContext (atSite rt (InAdditional pk))
                         additionalPropertiesSchema (mapIndex val pk) context)
               else r')
            else
              (if \<not> pp_has \<or> \<not> pp_match
               then mergeErrors r'
                      (subValidateWithContext (atSite rt (InAdditional pk))
                         additionalPropertiesSchema (mapIndex val pk) context)
               else r')))"

definition additionalNilStep ::
  "runtime \<Rightarrow> subSchema \<Rightarrow> (string \<times> json) list \<Rightarrow> jsonContext \<Rightarrow> string \<Rightarrow> Result \<Rightarrow> Result"
  where
  "additionalNilStep rt currentSubSchema val context =
     (\<lambda>pk r.
        (let ((pp_has, pp_match), r') =
               validatePatternProperty (atSite rt (InKey pk)) currentSubSchema pk
                 (mapIndex val pk) r context
         in if pp_has \<and> \<not> pp_match
            then addError r' (newJsonContext pk (Some context))
                   KEY_PATTERN_PROPERTIES
                   (ReqPatternProperties (patternProperties currentSubSchema))
                   (ValNode (JObject val))
            else r'))"

definition additionalPropertiesStage ::
  "runtime \<Rightarrow> subSchema \<Rightarrow> (string \<times> json) list \<Rightarrow> jsonContext \<Rightarrow> Result \<Rightarrow> Result" where
  "additionalPropertiesStage rt currentSubSchema val context r3 =
     (case additionalProperties currentSubSchema of
        AdditionalBool b \<Rightarrow>
          if \<not> b then
            fold (additionalFalseStep rt currentSubSchema val context)
              (rangeKeys rt [RangeObject] (map fst val)) r3
          else r3
      | AdditionalSchema additionalPropertiesSchema \<Rightarrow>
          fold (additionalSchemaStep rt currentSubSchema additionalPropertiesSchema val context)
            (rangeKeys rt [RangeObject] (map fst val)) r3
      | AdditionalNil \<Rightarrow>
          fold (additionalNilStep rt currentSubSchema val context)
            (rangeKeys rt [RangeObject] (map fst val)) r3)"

definition patternStep ::
  "runtime \<Rightarrow> subSchema \<Rightarrow> string \<Rightarrow> json \<Rightarrow> jsonContext \<Rightarrow> string
     \<Rightarrow> (bool \<times> bool) \<times> Result \<Rightarrow> (bool \<times> bool) \<times> Result" where
  "patternStep rt currentSubSchema key val context =
     (\<lambda>pk ((has, validatedkey), r).
        case map_of (patternProperties currentSubSchema) pk of
          Some pv \<Rightarrow>
            if regexpMatchString rt pk key then
              (let subContext = newJsonContext key (Some context);
                   validationResult =
                     subValidateWithContext (atSite rt (InPattern pk)) pv val subContext
               in ((True, if Valid validationResult then True else validatedkey),
                   mergeErrors r validationResult))
            else ((has, validatedkey), r)
        | None \<Rightarrow> ((has, validatedkey), r))"

definition propertiesStep ::
  "runtime \<Rightarrow> (string \<times> json) list \<Rightarrow> jsonContext \<Rightarrow> nat \<times> subSchema \<Rightarrow> Result
     \<Rightarrow> Result" where
  "propertiesStep rt castCurrentNode context =
     (\<lambda>(i, pSchema) r.
        case map_of castCurrentNode (property pSchema) of
          Some nextNode \<Rightarrow>
            validateRecursive (atSite rt (InProperty i)) pSchema nextNode r
              (newJsonContext (property pSchema) (Some context))
        | None \<Rightarrow> r)"

text \<open>The type check of the walker: the node's kind is not in the schema's typed set.\<close>

definition typeMismatch :: "subSchema \<Rightarrow> json \<Rightarrow> bool" where
  "typeMismatch s n =
     (case n of
        JNull \<Rightarrow> IsTyped (types s) \<and> \<not> Contains (types s) TYPE_NULL
      | JBool b \<Rightarrow> IsTyped (types s) \<and> \<not> Contains (types s) TYPE_BOOLEAN
      | JNumber x \<Rightarrow>
          IsTyped (types s)
          \<and> \<not> (Contains (types s) TYPE_NUMBER
               \<or> (isFloat64AnInteger x \<and> Contains (types s) TYPE_INTEGER))
      | JString x \<Rightarrow> IsTyped (types s) \<and> \<not> Contains (types s) TYPE_STRING
      | JArray xs \<Rightarrow> IsTyped (types s) \<and> \<not> Contains (types s) TYPE_ARRAY
      | JObject m \<Rightarrow> IsTyped (types s) \<and> \<not> Contains (types s) TYPE_OBJECT
      | JOther t \<Rightarrow> False)"

text \<open>What the walker runs on a node that passed the type check, before its final increment.\<close>

definition assertions ::
  "runtime \<Rightarrow> subSchema \<Rightarrow> json \<Rightarrow> jsonContext \<Rightarrow> Result \<Rightarrow> Result" where
  "assertions rt s n c r =
     (case n of
        JNull \<Rightarrow> validateCommon rt s n (validateSchema rt s n r c) c
      | JBool b \<Rightarrow>
          validateString rt s n (validateCommon rt s n
            (validateNumber s n (validateSchema rt s n r c) c) c) c
      | JNumber x \<Rightarrow>
          validateString rt s n (validateCommon rt s n
            (validateNumber s n (validateSchema rt s n r c) c) c) c
      | JString x \<Rightarrow>
          validateString rt s n (validateCommon rt s n
            (validateNumber s n (validateSchema rt s n r c) c) c) c
      | JArray xs \<Rightarrow>
          validateCommon rt s n (validateArray rt s xs (validateSchema rt s n r c) c) c
      | JObject m \<Rightarrow>
          fold (propertiesStep rt m c) (enumerate 0 (propertiesChildren s))
            (validateCommon rt s n (validateObject rt s m (validateSchema rt s n r c) c) c)
      | JOther t \<Rightarrow> r)"

subsection \<open>Routines that only append\<close>

text \<open>
  A routine is \<open>framed\<close> when it treats the result it receives as a prefix: what it does
  on \<open>r\<close> merged with \<open>x\<close> is \<open>r\<close> merged with what it does on \<open>x\<close>. No routine reads the
  errors or the score already recorded.
\<close>

definition framed :: "(Result \<Rightarrow> Result) \<Rightarrow> bool" where
  "framed f \<longleftrightarrow> (\<forall>r x. f (mergeErrors r x) = mergeErrors r (f x))"

definition framed2 :: "('s \<times> Result \<Rightarrow> 's \<times> Result) \<Rightarrow> bool" where
  "framed2 f \<longleftrightarrow>
     (\<forall>s r x. f (s, mergeErrors r x) = (fst (f (s, x)), mergeErrors r (snd (f (s, x)))))"

subsection \<open>Pattern properties and locations\<close>

text \<open>
  For a key of the document and a pattern of the schema: whether the pattern matches the
  key, the result of validating the key's value against the pattern's schema (the empty
  result when the pattern does not match), and whether the pattern matches and validates.
\<close>

definition patternMatches :: "runtime \<Rightarrow> subSchema \<Rightarrow> string \<Rightarrow> string \<Rightarrow> bool" where
  "patternMatches rt s key pk =
     (case map_of (patternProperties s) pk of
        Some pv \<Rightarrow> regexpMatchString rt pk key
      | None \<Rightarrow> False)"

definition patternResult ::
  "runtime \<Rightarrow> subSchema \<Rightarrow> string \<Rightarrow> json \<Rightarrow> jsonContext \<Rightarrow> string \<Rightarrow> Result" where
  "patternResult rt s key val c pk =
     (case map_of (patternProperties s) pk of
        Some pv \<Rightarrow>
          if regexpMatchString rt pk key
          then subValidateWithContext (atSite rt (InPattern pk)) pv val
                 (newJsonContext key (Some c))
          else emptyResult
      | None \<Rightarrow> emptyResult)"

definition patternValidates ::
  "runtime \<Rightarrow> subSchema \<Rightarrow> string \<Rightarrow> json \<Rightarrow> jsonContext \<Rightarrow> string \<Rightarrow> bool" where
  "patternValidates rt s key val c pk \<longleftrightarrow>
     patternMatches rt s key pk \<and> Valid (patternResult rt s key val c pk)"

fun depth :: "jsonContext \<Rightarrow> nat" where
  "depth (JsonContext h None) = 0"
| "depth (JsonContext h (Some t)) = Suc (depth t)"

text \<open>
  An error recorded by a routine that runs at context \<open>c\<close> lies at \<open>c\<close> or below it, and
  an \<open>additionalProperties\<close> error lies strictly below \<open>c\<close>.
\<close>

definition atOrBelow :: "jsonContext \<Rightarrow> ResultError \<Rightarrow> bool" where
  "atOrBelow c e \<longleftrightarrow>
     depth c \<le> depth (Context e)
     \<and> (Attribute e = KEY_ADDITIONAL_PROPERTIES \<longrightarrow> depth c < depth (Context e))"

definition keeps :: "(ResultError \<Rightarrow> bool) \<Rightarrow> (Result \<Rightarrow> Result) \<Rightarrow> bool" where
  "keeps Q f \<longleftrightarrow> (\<forall>r. list_all Q (errors r) \<longrightarrow> list_all Q (errors (f r)))"

subsection \<open>Sub-schemas\<close>

text \<open>The sub-schemas a schema holds, all smaller than the schema.\<close>

definition children :: "subSchema \<Rightarrow> subSchema set" where
  "children s =
     set (anyOf s) \<union> set (oneOf s) \<union> set (allOf s) \<union> set (itemsChildren s)
     \<union> set (propertiesChildren s)
     \<union> {d. \<exists>k. map_of (dependencies s) k = Some (DependOnSchema d)}
     \<union> {pv. \<exists>pk. map_of (patternProperties s) pk = Some pv}
     \<union> {a. additionalItems s = AdditionalSchema a}
     \<union> {a. additionalProperties s = AdditionalSchema a}
     \<union> {a. not s = Some a}"

subsection \<open>Additional properties\<close>

text \<open>
  When \<open>additionalProperties\<close> is false, the code permits a key of the document when some
  pattern of \<open>patternProperties\<close> matches the key and validates its value, or when the key
  is a declared property that no pattern matches. The validation of the value against the
  schema of pattern \<open>p\<close> is the one the run makes: in the round of the key, at the site of
  the pattern.
\<close>

definition permitted ::
  "runtime \<Rightarrow> subSchema \<Rightarrow> (string \<times> json) list \<Rightarrow> jsonContext \<Rightarrow> string \<Rightarrow> bool" where
  "permitted rt s val c k \<longleftrightarrow>
     list_ex (\<lambda>(p, ps). regexpMatchString rt p k
                \<and> Valid (subValidateWithContext (atSite (atSite rt (InKey k)) (InPattern p)) ps
                           (mapIndex val k) (newJsonContext k (Some c))))
       (patternProperties s)
     \<or> (list_ex (\<lambda>sp. k = property sp) (propertiesChildren s)
        \<and> \<not> list_ex (\<lambda>(p, ps). regexpMatchString rt p k) (patternProperties s))"

text \<open>The errors counted for key \<open>k\<close>: keyword \<open>additionalProperties\<close>, at the
  sub-context of \<open>k\<close>.\<close>

definition additionalPropertyErrorAt :: "jsonContext \<Rightarrow> string \<Rightarrow> ResultError \<Rightarrow> bool" where
  "additionalPropertyErrorAt c k e \<longleftrightarrow>
     Context e = newJsonContext k (Some c) \<and> Attribute e = KEY_ADDITIONAL_PROPERTIES"

subsection \<open>Two runs of the validator\<close>

text \<open>
  Two runs of the validator on the same schema and document differ only in the orders in
  which the Go runtime lets the executions of \<open>range\<close> visit the keys of the maps. Two
  runtimes are the \<open>sameLibrary\<close> when they agree on everything else; a runtime
  \<open>visitsEachKeyOnce\<close> when the order of each execution of a \<open>range\<close> is a permutation
  of the keys; \<open>twoRuns\<close> are two such runtimes of the same library. Two results are the
  \<open>sameReport\<close> when they have the same score and the same errors up to their order
  (errors as the model has them: context, value, keyword and requirement, without the
  description text).
\<close>

definition sameLibrary :: "runtime \<Rightarrow> runtime \<Rightarrow> bool" where
  "sameLibrary rt1 rt2 \<longleftrightarrow>
     regexpMatchString rt1 = regexpMatchString rt2
     \<and> runeCount rt1 = runeCount rt2
     \<and> marshalToJsonString rt1 = marshalToJsonString rt2"

definition visitsEachKeyOnce :: "runtime \<Rightarrow> bool" where
  "visitsEachKeyOnce rt \<longleftrightarrow> (\<forall>p ks. mset (rangeKeys rt p ks) = mset ks)"

definition twoRuns :: "runtime \<Rightarrow> runtime \<Rightarrow> bool" where
  "twoRuns rt1 rt2 \<longleftrightarrow>
     sameLibrary rt1 rt2 \<and> visitsEachKeyOnce rt1 \<and> visitsEachKeyOnce rt2"

definition sameReport :: "Result \<Rightarrow> Result \<Rightarrow> bool" where
  "sameReport a b \<longleftrightarrow> score a = score b \<and> mset (errors a) = mset (errors b)"

definition alike :: "(Result \<Rightarrow> Result) \<Rightarrow> (Result \<Rightarrow> Result) \<Rightarrow> bool" where
  "alike f g \<longleftrightarrow> (\<forall>a b. sameReport a b \<longrightarrow> sameReport (f a) (g b))"

section \<open>Results: basic facts\<close>

lemma errors_addError [simp]:
  "errors (addError r c a q v) =
     errors r @ [\<lparr>Context = c, Value = v, Attribute = a, Requirement = q\<rparr>]"
  by (simp add: addError_def)

lemma score_addError [simp]: "score (addError r c a q v) = score r - 2"
  by (simp add: addError_def)

lemma errors_incrementScore [simp]: "errors (incrementScore r) = errors r"
  by (simp add: incrementScore_def)

lemma score_incrementScore [simp]: "score (incrementScore r) = score r + 1"
  by (simp add: incrementScore_def)

lemma errors_mergeErrors [simp]: "errors (mergeErrors r x) = errors r @ errors x"
  by (simp add: mergeErrors_def)

lemma score_mergeErrors [simp]: "score (mergeErrors r x) = score r + score x"
  by (simp add: mergeErrors_def)

lemma errors_emptyResult [simp]: "errors emptyResult = []"
  by (simp add: emptyResult_def)

lemma score_emptyResult [simp]: "score emptyResult = 0"
  by (simp add: emptyResult_def)

lemma Valid_iff [simp]: "Valid r \<longleftrightarrow> errors r = []"
  by (simp add: Valid_def)

lemma Result_eqI: "errors r = errors r' \<Longrightarrow> score r = score r' \<Longrightarrow> r = (r'::Result)"
  by simp

section \<open>Values of other kinds\<close>

lemma validateRecursive_JOther: "validateRecursive rt s (JOther t) r c = incrementScore r"
proof (induction s rule: measure_induct_rule[of size])
  case (less s)
  show ?case
    by (subst validateRecursive.simps) (simp add: less size_refSchema split: option.splits)
qed

text \<open>
  C9. A non-nil document value whose kind is none of slice, map, bool, string or float64
  gets no error from \<open>validateRecursive\<close>, whatever the schema's type set: the result's
  errors are unchanged and its score goes up by one, so the value validates against
  every schema.
\<close>

theorem validateRecursive_other_kind_only_increments:
  "validateRecursive rt s (JOther t) r c = incrementScore r
   \<and> errors (validateRecursive rt s (JOther t) r c) = errors r
   \<and> score (validateRecursive rt s (JOther t) r c) = score r + 1
   \<and> Valid (Validate rt s (JOther t))"
  by (simp add: validateRecursive_JOther Validate_def)

section \<open>Strings and numbers on values of another kind\<close>

lemma validateString_not_string: "\<not> isKind v KString \<Longrightarrow> validateString rt s v r c = r"
  by (cases v) (simp_all add: validateString_def isKind_def)

lemma validateNumber_not_number: "\<not> isKind v KFloat64 \<Longrightarrow> validateNumber s v r c = r"
  by (cases v) (simp_all add: validateNumber_def isKind_def)

text \<open>
  C10. \<open>validateString\<close> returns the result unchanged for every value that is not a
  string, and \<open>validateNumber\<close> for every value that is not a float64; so on a boolean
  node the two cross-calls of \<open>validateRecursive\<close> do nothing, on a string node the call
  of \<open>validateNumber\<close> does nothing and on a number node the call of \<open>validateString\<close>.
\<close>

theorem validateString_validateNumber_skip_other_kinds:
  "(\<not> isKind v KString \<longrightarrow> validateString rt s v r c = r)
   \<and> (\<not> isKind v KFloat64 \<longrightarrow> validateNumber s v r c = r)
   \<and> validateString rt s (JBool b) (validateCommon rt s (JBool b)
        (validateNumber s (JBool b) r c) c) c = validateCommon rt s (JBool b) r c
   \<and> validateNumber s (JString x) r c = r
   \<and> validateString rt s (JNumber f) r c = r"
  by (simp add: validateString_not_string validateNumber_not_number isKind_def)

theorem validateString_validateNumber_skip_other_kinds_witness:
  "\<not> isKind (JBool True) KString
   \<and> validateString goRuntime longWithX (JBool True) emptyResult rootContext = emptyResult
   \<and> \<not> isKind (JBool True) KFloat64
   \<and> validateNumber longWithX (JBool True) emptyResult rootContext = emptyResult"
  using validateString_validateNumber_skip_other_kinds
          [of "JBool True" goRuntime longWithX emptyResult rootContext]
  by (simp add: isKind_def)

section \<open>Evaluations\<close>

text \<open>
  C1. An \<open>anyOf\<close> with the single alternative \<open>{"type": "string"}\<close>, on the document
  \<open>true\<close>: the alternative alone records a \<open>type\<close> error; the \<open>anyOf\<close> schema does not merge
  it but records one \<open>anyOf\<close> summary error, because \<open>getBestResult\<close> returns nil for a list
  of one result.
\<close>

theorem anyOf_single_alternative_not_merged:
  "errors (Validate goRuntime stringSchema (JBool True)) =
     [\<lparr>Context = rootContext, Value = ValNode (JBool True), Attribute = KEY_TYPE,
       Requirement = ReqTypes [TYPE_STRING]\<rparr>]
   \<and> errors (Validate goRuntime anyOfString (JBool True)) =
     [\<lparr>Context = rootContext, Value = ValNode (JBool True), Attribute = KEY_ANY_OF,
       Requirement = ReqSchemas [stringSchema]\<rparr>]
   \<and> errors (Validate goRuntime anyOfString (JBool True))
       \<noteq> errors (Validate goRuntime stringSchema (JBool True))"
  by code_simp

text \<open>
  C2. Tuple items \<open>[{"type": "string"}]\<close> on the array \<open>[true, "x"]\<close> (\<open>n = 2 > k = 1\<close>), and
  tuple items of length two on the array \<open>[true]\<close> (\<open>n = 1 < k = 2\<close>): element 0 fails
  \<open>items[0]\<close> when validated on its own, yet the array validates without any error. Only
  for \<open>n = k\<close> are the elements validated.
\<close>

theorem tuple_items_skipped_when_lengths_differ:
  "errors (subValidateWithContext goRuntime stringSchema (JBool True)
             (newJsonContext (Itoa 0) (Some rootContext))) \<noteq> []
   \<and> errors (Validate goRuntime tupleString (JArray [JBool True, JString ''x''])) = []
   \<and> errors (Validate goRuntime tupleStringString (JArray [JBool True])) = []
   \<and> errors (Validate goRuntime tupleString (JArray [JBool True])) =
       errors (subValidateWithContext goRuntime stringSchema (JBool True)
                 (newJsonContext (Itoa 0) (Some rootContext)))"
  by code_simp

text \<open>
  C6. One failed sub-result: it is the unique result with the highest score, yet
  \<open>getBestResult\<close> returns nil, and a \<open>oneOf\<close> with the single alternative
  \<open>{"type": "string"}\<close> records the \<open>oneOf\<close> summary error on the document \<open>true\<close> instead of
  the alternative's \<open>type\<close> error.
\<close>

theorem getBestResult_single_result_is_nil:
  "getBestResult [subValidateWithContext goRuntime stringSchema (JBool True) rootContext] = None
   \<and> errors (Validate goRuntime oneOfString (JBool True)) =
     [\<lparr>Context = rootContext, Value = ValNode (JBool True), Attribute = KEY_ONE_OF,
       Requirement = ReqSchemas [stringSchema]\<rparr>]"
  by code_simp

text \<open>
  C8. With the root segment \<open>STRING_CONTEXT_ROOT = "#"\<close> of the message file, the location
  of an error at the document root is \<open>#\<close>, not \<open>(root)\<close>, and a nested context is
  \<open>#.field.0.subfield\<close>.
\<close>

theorem root_context_renders_hash:
  "map (\<lambda>e. contextString (Context e)) (errors (Validate goRuntime stringSchema (JBool True)))
     = [''#'']
   \<and> contextString (newJsonContext STRING_CONTEXT_ROOT None) \<noteq> ''(root)''
   \<and> contextString (newJsonContext ''subfield'' (Some (newJsonContext (Itoa 0)
        (Some (newJsonContext ''field'' (Some (newJsonContext STRING_CONTEXT_ROOT None)))))))
     = ''#.field.0.subfield''"
  by code_simp

lemmas KEY_defs =
  KEY_TYPE_def KEY_ADDITIONAL_ITEMS_def KEY_PATTERN_PROPERTIES_def KEY_ADDITIONAL_PROPERTIES_def
  KEY_MULTIPLE_OF_def KEY_MINIMUM_def KEY_MAXIMUM_def KEY_EXCLUSIVE_MINIMUM_def
  KEY_EXCLUSIVE_MAXIMUM_def KEY_MIN_LENGTH_def KEY_MAX_LENGTH_def KEY_PATTERN_def
  KEY_MIN_PROPERTIES_def KEY_MAX_PROPERTIES_def KEY_DEPENDENCIES_def KEY_REQUIRED_def
  KEY_MIN_ITEMS_def KEY_MAX_ITEMS_def KEY_UNIQUE_ITEMS_def KEY_ENUM_def KEY_ONE_OF_def
  KEY_ANY_OF_def KEY_ALL_OF_def KEY_NOT_def

section \<open>Additional items\<close>

lemma uniqueItems_fold_other_keyword:
  assumes "a \<noteq> KEY_UNIQUE_ITEMS"
  shows "filter (\<lambda>e. Attribute e = a)
           (errors (snd (fold (\<lambda>v (stringifiedItems, r).
                                 (let vString = marshalToJsonString rt v
                                  in (stringifiedItems @ [vString],
                                      if isStringInSlice stringifiedItems vString
                                      then addError r c KEY_UNIQUE_ITEMS ReqNil x
                                      else r)))
                         vs (strs, r0))))
         = filter (\<lambda>e. Attribute e = a) (errors r0)"
  using assms by (induction vs arbitrary: strs r0) (simp_all add: Let_def)

text \<open>
  C3, as the code has it. With tuple items of length \<open>k \<ge> 1\<close>, \<open>additionalItems\<close> the
  boolean false and an array of length \<open>n > k\<close>, \<open>validateArray\<close> adds exactly one error with
  the keyword \<open>additionalItems\<close>, at the context of the array and with the whole array as its
  value, however many elements there are beyond the tuple.
\<close>

theorem validateArray_one_additionalItems_error:
  assumes "\<not> itemsChildrenIsSingleSchema s"
    and "length (itemsChildren s) > 0"
    and "additionalItems s = AdditionalBool False"
    and "length (itemsChildren s) < length val"
  shows "filter (\<lambda>e. Attribute e = KEY_ADDITIONAL_ITEMS) (errors (validateArray rt s val r c))
         = filter (\<lambda>e. Attribute e = KEY_ADDITIONAL_ITEMS) (errors r)
           @ [\<lparr>Context = c, Value = ValNode (JArray val), Attribute = KEY_ADDITIONAL_ITEMS,
               Requirement = ReqAdditional (AdditionalBool False)\<rparr>]"
proof -
  have ne: "KEY_ADDITIONAL_ITEMS \<noteq> KEY_UNIQUE_ITEMS" "KEY_MIN_ITEMS \<noteq> KEY_ADDITIONAL_ITEMS"
    "KEY_MAX_ITEMS \<noteq> KEY_ADDITIONAL_ITEMS"
    by (simp_all add: KEY_defs)
  show ?thesis
    using assms ne
    by (subst validateArray.simps)
       (simp add: Let_def case_prod_beta uniqueItems_fold_other_keyword[unfolded Let_def]
             split: option.splits)
qed

theorem validateArray_one_additionalItems_error_witness:
  "\<not> itemsChildrenIsSingleSchema tupleStringNoMore
   \<and> length (itemsChildren tupleStringNoMore) > 0
   \<and> additionalItems tupleStringNoMore = AdditionalBool False
   \<and> length (itemsChildren tupleStringNoMore) < length [JString ''a'', JBool True, JNull]
   \<and> filter (\<lambda>e. Attribute e = KEY_ADDITIONAL_ITEMS)
        (errors (validateArray goRuntime tupleStringNoMore [JString ''a'', JBool True, JNull]
                   emptyResult rootContext))
      = [\<lparr>Context = rootContext, Value = ValNode (JArray [JString ''a'', JBool True, JNull]),
          Attribute = KEY_ADDITIONAL_ITEMS,
          Requirement = ReqAdditional (AdditionalBool False)\<rparr>]"
  using validateArray_one_additionalItems_error
          [of tupleStringNoMore "[JString ''a'', JBool True, JNull]" goRuntime emptyResult
              rootContext]
  by (simp add: tupleStringNoMore_def)

text \<open>
  C3 as stated fails: one tuple item, \<open>additionalItems\<close> false and the array
  \<open>["a", true, null]\<close> (\<open>n - k = 2\<close>) give one \<open>additionalItems\<close> error, not two.
\<close>

theorem additionalItems_errors_counterexample:
  "length (filter (\<lambda>e. Attribute e = KEY_ADDITIONAL_ITEMS)
            (errors (Validate goRuntime tupleStringNoMore
                       (JArray [JString ''a'', JBool True, JNull])))) = 1
   \<and> length [JString ''a'', JBool True, JNull] - length (itemsChildren tupleStringNoMore) = 2"
  by code_simp

section \<open>Score accounting\<close>




section \<open>The best result\<close>

lemma sortByScore_mset: "mset (sortByScore rs) = mset rs"
  by (simp add: sortByScore_def)

lemma sortByScore_length: "length (sortByScore rs) = length rs"
  by (simp add: sortByScore_def)

lemma sortByScore_descending:
  assumes "i \<le> j" and "j < length rs"
  shows "score (sortByScore rs ! j) \<le> score (sortByScore rs ! i)"
proof -
  have "sorted (map (\<lambda>r. - score r) (sortByScore rs))"
    by (simp add: sortByScore_def)
  then have "map (\<lambda>r. - score r) (sortByScore rs) ! i \<le> map (\<lambda>r. - score r) (sortByScore rs) ! j"
    using assms by (intro sorted_nth_mono) (simp_all add: sortByScore_length)
  then show ?thesis
    using assms by (simp add: sortByScore_length)
qed

lemma mset_without_nth:
  assumes "i < length xs"
  shows "mset xs = add_mset (xs ! i) (mset (take i xs @ drop (Suc i) xs))"
proof -
  have "xs = take i xs @ xs ! i # drop (Suc i) xs"
    using assms by (rule id_take_nth_drop)
  then have "mset xs = mset (take i xs @ xs ! i # drop (Suc i) xs)"
    by simp
  then show ?thesis by simp
qed

lemma nth_in_without:
  assumes "i < length xs" and "j < length xs" and "j \<noteq> i"
  shows "xs ! j \<in> set (take i xs @ drop (Suc i) xs)"
proof (cases "j < i")
  case True
  then have "xs ! j = take i xs ! j" by simp
  moreover have "j < length (take i xs)" using True assms by simp
  ultimately have "xs ! j \<in> set (take i xs)" by (metis nth_mem)
  then show ?thesis by simp
next
  case False
  with assms have "Suc i \<le> j" by simp
  then have "xs ! j = drop (Suc i) xs ! (j - Suc i)"
    using assms by simp
  moreover have "j - Suc i < length (drop (Suc i) xs)"
    using assms \<open>Suc i \<le> j\<close> by simp
  ultimately have "xs ! j \<in> set (drop (Suc i) xs)" by (metis nth_mem)
  then show ?thesis by simp
qed

text \<open>
  When \<open>getBestResult\<close> returns a result, it is the one result whose score is strictly
  higher than the score of every other result of the list.
\<close>

lemma getBestResult_Some_strict_max:
  assumes "getBestResult rs = Some b"
  shows "\<exists>i<length rs. rs ! i = b \<and> (\<forall>j<length rs. j \<noteq> i \<longrightarrow> score (rs ! j) < score b)"
proof -
  let ?ss = "sortByScore rs"
  from assms have len: "length rs > 1" and b: "b = ?ss ! 0"
    and ne: "score (?ss ! 0) \<noteq> score (?ss ! 1)"
    by (auto simp: getBestResult_def Let_def split: if_splits)
  have lt1: "score (?ss ! 1) < score b"
    using sortByScore_descending[of 0 1 rs] len ne b by simp
  have below: "score x < score b" if "x \<in> set (tl ?ss)" for x
  proof -
    from that obtain k where k: "k < length (tl ?ss)" "x = tl ?ss ! k"
      by (metis in_set_conv_nth)
    then have "x = ?ss ! Suc k" by (simp add: nth_tl)
    moreover have "Suc k < length rs" using k by (simp add: sortByScore_length)
    ultimately have "score x \<le> score (?ss ! 1)"
      using sortByScore_descending[of 1 "Suc k" rs] by simp
    with lt1 show ?thesis by simp
  qed
  have "length ?ss > 1"
    using len by (simp add: sortByScore_length)
  then have ss: "?ss = b # tl ?ss"
    using b by (cases ?ss) simp_all
  have "set ?ss = set rs"
    using sortByScore_mset[of rs] by (rule mset_eq_setD)
  moreover have "b \<in> set ?ss"
    using ss by (metis list.set_intros(1))
  ultimately have "b \<in> set rs" by simp
  then obtain i where i: "i < length rs" "rs ! i = b"
    by (metis in_set_conv_nth)
  have "mset ?ss = add_mset b (mset (tl ?ss))"
    using ss by (metis mset.simps(2))
  then have "mset rs = add_mset b (mset (tl ?ss))"
    by (simp add: sortByScore_mset)
  with mset_without_nth[OF i(1)] i(2)
  have rest: "mset (take i rs @ drop (Suc i) rs) = mset (tl ?ss)"
    by simp
  have "score (rs ! j) < score b" if "j < length rs" "j \<noteq> i" for j
  proof -
    have "rs ! j \<in> set (take i rs @ drop (Suc i) rs)"
      using nth_in_without[OF i(1) that] .
    moreover have "set (take i rs @ drop (Suc i) rs) = set (tl ?ss)"
      using rest by (rule mset_eq_setD)
    ultimately have "rs ! j \<in> set (tl ?ss)"
      by blast
    then show ?thesis by (rule below)
  qed
  with i show ?thesis by blast
qed

text \<open>
  Conversely, in a list of at least two results, a result whose score is strictly higher
  than every other's is the one \<open>getBestResult\<close> returns, whatever the order of the list.
\<close>

lemma getBestResult_strict_max:
  assumes len: "length rs > 1" and i: "i < length rs"
    and top: "\<forall>j<length rs. j \<noteq> i \<longrightarrow> score (rs ! j) < score (rs ! i)"
  shows "getBestResult rs = Some (rs ! i)"
proof -
  let ?ss = "sortByScore rs"
  let ?b = "rs ! i"
  have others: "score x < score ?b" if "x \<in> set (take i rs @ drop (Suc i) rs)" for x
  proof -
    from that have "x \<in> set (take i rs) \<or> x \<in> set (drop (Suc i) rs)" by simp
    then show ?thesis
    proof
      assume "x \<in> set (take i rs)"
      then obtain k where "k < length (take i rs)" "x = take i rs ! k"
        by (metis in_set_conv_nth)
      then have "k < i" "x = rs ! k" by simp_all
      with top i show ?thesis by simp
    next
      assume "x \<in> set (drop (Suc i) rs)"
      then obtain k where k: "k < length (drop (Suc i) rs)" "x = drop (Suc i) rs ! k"
        by (metis in_set_conv_nth)
      then have "Suc i + k < length rs" "x = rs ! (Suc i + k)" using i by simp_all
      with top show ?thesis by simp
    qed
  qed
  have mrs: "mset ?ss = add_mset ?b (mset (take i rs @ drop (Suc i) rs))"
    using mset_without_nth[OF i] by (simp add: sortByScore_mset)
  have len': "length ?ss > 1" using len by (simp add: sortByScore_length)
  then obtain x ys where "?ss = x # ys" "length ys > 0"
    by (cases ?ss) simp_all
  then obtain x y zs where ss: "?ss = x # y # zs"
    by (cases ys) simp_all
  have set_ss: "set ?ss = insert ?b (set (take i rs @ drop (Suc i) rs))"
    using arg_cong[OF mrs, of set_mset] by simp
  have x_cases: "x = ?b \<or> x \<in> set (take i rs @ drop (Suc i) rs)"
    using set_ss ss by auto
  have "?b \<in> set ?ss" using set_ss by simp
  then obtain k where k: "k < length ?ss" "?ss ! k = ?b" by (metis in_set_conv_nth)
  have "k < length rs" using k(1) by (simp add: sortByScore_length)
  then have "score (?ss ! k) \<le> score (?ss ! 0)"
    by (intro sortByScore_descending) simp_all
  then have bx: "score ?b \<le> score x"
    using k(2) ss by simp
  have x: "x = ?b"
  proof (rule ccontr)
    assume "x \<noteq> ?b"
    with x_cases have "x \<in> set (take i rs @ drop (Suc i) rs)" by simp
    then have "score x < score ?b" by (rule others)
    with bx show False by simp
  qed
  have "mset (y # zs) = mset (take i rs @ drop (Suc i) rs)"
    using mrs ss x by simp
  then have "set (y # zs) = set (take i rs @ drop (Suc i) rs)"
    by (rule mset_eq_setD)
  then have "y \<in> set (take i rs @ drop (Suc i) rs)"
    by auto
  then have "score y < score ?b" by (rule others)
  then show ?thesis
    using len ss x by (simp add: getBestResult_def Let_def)
qed

lemma getBestResult_short: "length rs \<le> 1 \<Longrightarrow> getBestResult rs = None"
  by (simp add: getBestResult_def)

section \<open>The routines, stage by stage\<close>

lemma regexpMatchString_atSite [simp]: "regexpMatchString (atSite rt x) = regexpMatchString rt"
  by (simp add: atSite_def)

lemma runeCount_atSite [simp]: "runeCount (atSite rt x) = runeCount rt"
  by (simp add: atSite_def)

lemma marshalToJsonString_atSite [simp]:
  "marshalToJsonString (atSite rt x) = marshalToJsonString rt"
  by (simp add: atSite_def)

lemma rangeKeys_atSite [simp]: "rangeKeys (atSite rt x) p = rangeKeys rt (x # p)"
  by (simp add: atSite_def)

lemma in_set_enumerate_snd: "(i, a) \<in> set (enumerate k xs) \<Longrightarrow> a \<in> set xs"
  by (auto simp add: in_set_enumerate_eq)

lemma validateSchema_stages:
  "validateSchema rt s n r c =
     incrementScore (dependenciesStage rt s n c (notStage rt s n c (allOfStage rt s n c
       (oneOfStage rt s n c (anyOfStage rt s n c r)))))"
proof -
  have "validateSchema rt s n r c =
     (let r1 = anyOfStage rt s n c r;
          r2 = oneOfStage rt s n c r1;
          r3 = allOfStage rt s n c r2;
          r4 = notStage rt s n c r3;
          r5 = dependenciesStage rt s n c r4
      in incrementScore r5)"
    unfolding anyOfStage_def oneOfStage_def allOfStage_def notStage_def dependenciesStage_def
      anyOfStep_def oneOfStep_def allOfStep_def dependencyStep_def
    by (rule validateSchema.simps)
  then show ?thesis by (simp add: Let_def)
qed

lemma validateArray_stages:
  "validateArray rt s val r c =
     incrementScore (uniqueItemsStage rt s val c (maxItemsStage s (int (length val)) val c
       (minItemsStage s (int (length val)) val c (itemsStage rt s val c r))))"
proof -
  have "validateArray rt s val r c =
     (let nbItems = int (length val);
          r1 = itemsStage rt s val c r;
          r2 = minItemsStage s nbItems val c r1;
          r3 = maxItemsStage s nbItems val c r2;
          r4 = uniqueItemsStage rt s val c r3
      in incrementScore r4)"
    unfolding itemsStage_def minItemsStage_def maxItemsStage_def uniqueItemsStage_def
      itemStep_def uniqueStep_def
    by (rule validateArray.simps)
  then show ?thesis by (simp add: Let_def)
qed

lemma validateObject_stages:
  "validateObject rt s val r c =
     incrementScore (additionalPropertiesStage rt s val c
       (fold (requiredStep val c) (required s)
          (maxPropertiesStage s val c (minPropertiesStage s val c r))))"
proof -
  have "validateObject rt s val r c =
     (let r1 = minPropertiesStage s val c r;
          r2 = maxPropertiesStage s val c r1;
          r3 = fold (requiredStep val c) (required s) r2;
          r4 = additionalPropertiesStage rt s val c r3
      in incrementScore r4)"
    unfolding minPropertiesStage_def maxPropertiesStage_def requiredStep_def
      additionalPropertiesStage_def additionalFalseStep_def additionalSchemaStep_def
      additionalNilStep_def
    by (rule validateObject.simps)
  then show ?thesis by (simp add: Let_def)
qed

lemma validatePatternProperty_loop:
  "validatePatternProperty rt s key val r c =
     (let ((has, validatedkey), r') =
            fold (patternStep rt s key val c)
              (rangeKeys rt [RangePatterns] (map fst (patternProperties s)))
              ((False, False), r)
      in if \<not> validatedkey then ((has, False), r') else ((has, True), incrementScore r'))"
  unfolding patternStep_def by (rule validatePatternProperty.simps)

lemma validateRecursive_ref:
  "refSchema s = Some ref \<Longrightarrow> validateRecursive rt s n r c = validateRecursive rt ref n r c"
  by (subst validateRecursive.simps) simp

lemma validateRecursive_node:
  "refSchema s = None \<Longrightarrow>
   validateRecursive rt s n r c =
     (if typeMismatch s n then addError r c KEY_TYPE (ReqTypes (types s)) (ValNode n)
      else incrementScore (assertions rt s n c r))"
  by (subst validateRecursive.simps, cases n)
     (auto simp add: typeMismatch_def assertions_def propertiesStep_def Let_def)

lemma subValidateWithContext_eq:
  "subValidateWithContext rt s n c = validateRecursive rt s n emptyResult c"
  by (rule subValidateWithContext.simps)

section \<open>Every routine only appends to the result it is given\<close>

lemma mergeErrors_assoc: "mergeErrors (mergeErrors r x) y = mergeErrors r (mergeErrors x y)"
  by (simp add: mergeErrors_def)

lemma mergeErrors_emptyResult [simp]: "mergeErrors r emptyResult = r"
  by (simp add: mergeErrors_def emptyResult_def)

lemma emptyResult_mergeErrors [simp]: "mergeErrors emptyResult r = r"
  by (simp add: mergeErrors_def emptyResult_def)

lemma addError_mergeErrors:
  "addError (mergeErrors r x) c a q v = mergeErrors r (addError x c a q v)"
  by (simp add: mergeErrors_def addError_def)

lemma incrementScore_mergeErrors:
  "incrementScore (mergeErrors r x) = mergeErrors r (incrementScore x)"
  by (simp add: mergeErrors_def incrementScore_def)

lemmas frame_simps = mergeErrors_assoc addError_mergeErrors incrementScore_mergeErrors

lemma framedD: "framed f \<Longrightarrow> f (mergeErrors r x) = mergeErrors r (f x)"
  by (simp add: framed_def)

lemma framed_empty: "framed f \<Longrightarrow> f r = mergeErrors r (f emptyResult)"
  using framedD[of f r emptyResult] by simp

lemma framed2D:
  "framed2 f \<Longrightarrow> f (s, mergeErrors r x) = (fst (f (s, x)), mergeErrors r (snd (f (s, x))))"
  by (simp add: framed2_def)

lemma framed_id: "framed (\<lambda>r. r)"
  by (simp add: framed_def)

lemma framed_addError: "framed (\<lambda>r. addError r c a q v)"
  by (simp add: framed_def frame_simps)

lemma framed_incrementScore: "framed incrementScore"
  by (simp add: framed_def frame_simps)

lemma framed_mergeErrors: "framed (\<lambda>r. mergeErrors r y)"
  by (simp add: framed_def frame_simps)

lemma framed_comp: "framed f \<Longrightarrow> framed g \<Longrightarrow> framed (\<lambda>r. g (f r))"
  by (simp add: framed_def)

lemma framed_if: "framed f \<Longrightarrow> framed g \<Longrightarrow> framed (\<lambda>r. if b then f r else g r)"
  by (simp add: framed_def)

lemma framed_fold:
  assumes "\<And>a. a \<in> set xs \<Longrightarrow> framed (f a)"
  shows "framed (fold f xs)"
  using assms
proof (induction xs)
  case Nil
  show ?case by (simp add: framed_def)
next
  case (Cons a xs)
  then have "framed (f a)" and "framed (fold f xs)" by simp_all
  then show ?case by (simp add: framed_def)
qed

lemma framed2_fold:
  assumes "\<And>a. a \<in> set xs \<Longrightarrow> framed2 (f a)"
  shows "framed2 (fold f xs)"
  using assms
proof (induction xs)
  case Nil
  show ?case by (simp add: framed2_def)
next
  case (Cons a xs)
  then have a: "framed2 (f a)" and xs: "framed2 (fold f xs)" by simp_all
  show ?case
    unfolding framed2_def
  proof (intro allI)
    fix s r x
    obtain s' x' where fx: "f a (s, x) = (s', x')" by (cases "f a (s, x)")
    then have "f a (s, mergeErrors r x) = (s', mergeErrors r x')"
      using framed2D[OF a, of s r x] by simp
    then show "fold f (a # xs) (s, mergeErrors r x) =
        (fst (fold f (a # xs) (s, x)), mergeErrors r (snd (fold f (a # xs) (s, x))))"
      using framed2D[OF xs, of s' r x'] fx by simp
  qed
qed

subsection \<open>The leaf routines\<close>

lemma framed_validateCommon: "framed (\<lambda>r. validateCommon rt s n r c)"
  by (simp add: framed_def validateCommon_def frame_simps)

lemma framed_validateString: "framed (\<lambda>r. validateString rt s n r c)"
  by (cases n)
     (simp_all add: framed_def validateString_def frame_simps Let_def split: option.splits)

lemma framed_validateNumber: "framed (\<lambda>r. validateNumber s n r c)"
  by (cases n)
     (simp_all add: framed_def validateNumber_def frame_simps Let_def split: option.splits)

subsection \<open>Schema-level stages\<close>

lemma framed_anyOfStage: "framed (anyOfStage rt s n c)"
  by (simp add: framed_def anyOfStage_def frame_simps Let_def split: prod.splits option.splits)

lemma framed_oneOfStage: "framed (oneOfStage rt s n c)"
  by (simp add: framed_def oneOfStage_def frame_simps Let_def split: prod.splits option.splits)

lemma framed2_allOfStep: "framed2 (allOfStep rt n c ia)"
  by (cases ia) (simp add: framed2_def allOfStep_def frame_simps Let_def)

lemma framed_allOfStage: "framed (allOfStage rt s n c)"
proof -
  have "framed2 (fold (allOfStep rt n c) (enumerate 0 (allOf s)))"
    by (intro framed2_fold framed2_allOfStep)
  then show ?thesis
    by (simp add: framed_def allOfStage_def framed2D frame_simps Let_def case_prod_beta)
qed

lemma framed_notStage: "framed (notStage rt s n c)"
  by (simp add: framed_def notStage_def frame_simps Let_def split: option.splits)

lemma framed_dependencyStep:
  assumes "\<And>rt' d. map_of (dependencies s) k = Some (DependOnSchema d)
             \<Longrightarrow> framed (\<lambda>r. validateRecursive rt' d n r c)"
  shows "framed (dependencyStep rt s n m c k)"
proof (cases "map_of (dependencies s) k")
  case None
  then show ?thesis by (simp add: dependencyStep_def framed_def)
next
  case (Some dep)
  show ?thesis
  proof (cases dep)
    case (DependOnKeys ks)
    have "framed (fold (\<lambda>dependOnKey r'.
                    if \<not> hasKey m dependOnKey
                    then addError r' (newJsonContext k (Some c)) KEY_DEPENDENCIES (ReqStrings ks)
                           (ValNode n)
                    else r') ks)"
      by (intro framed_fold) (simp add: framed_def frame_simps)
    then show ?thesis
      using Some DependOnKeys by (simp add: dependencyStep_def framed_def)
  next
    case (DependOnSchema d)
    then show ?thesis
      using Some assms[of d "atSite rt (InDependency k)"]
      by (simp add: dependencyStep_def framed_def)
  qed
qed

lemma framed_dependenciesStage:
  assumes "\<And>rt' k d. map_of (dependencies s) k = Some (DependOnSchema d)
             \<Longrightarrow> framed (\<lambda>r. validateRecursive rt' d n r c)"
  shows "framed (dependenciesStage rt s n c)"
proof -
  have "framed (fold (dependencyStep rt s n m c) ks)" for m ks
    by (intro framed_fold framed_dependencyStep assms)
  then show ?thesis
    by (cases n) (simp_all add: dependenciesStage_def framed_def)
qed

lemma framed_validateSchema:
  assumes "\<And>rt' k d. map_of (dependencies s) k = Some (DependOnSchema d)
             \<Longrightarrow> framed (\<lambda>r. validateRecursive rt' d n r c)"
  shows "framed (\<lambda>r. validateSchema rt s n r c)"
  using framed_anyOfStage[of rt s n c] framed_oneOfStage[of rt s n c]
    framed_allOfStage[of rt s n c] framed_notStage[of rt s n c]
    framed_dependenciesStage[where s = s and rt = rt and n = n and c = c, OF assms]
  by (simp add: validateSchema_stages framed_def frame_simps)

subsection \<open>Arrays\<close>

lemma framed_itemStep: "framed (itemStep rt sch val c i)"
  by (simp add: framed_def itemStep_def frame_simps Let_def)

lemma framed_itemsStage: "framed (itemsStage rt s val c)"
proof -
  have "framed (fold (itemStep rt sch val c) is)" for sch "is"
    by (intro framed_fold framed_itemStep)
  then show ?thesis
    by (simp add: framed_def itemsStage_def frame_simps Let_def
             split: list.splits additional.splits)
qed

lemma framed_minItemsStage: "framed (minItemsStage s k val c)"
  by (simp add: framed_def minItemsStage_def frame_simps split: option.splits)

lemma framed_maxItemsStage: "framed (maxItemsStage s k val c)"
  by (simp add: framed_def maxItemsStage_def frame_simps split: option.splits)

lemma framed2_uniqueStep: "framed2 (uniqueStep rt val c v)"
  by (simp add: framed2_def uniqueStep_def frame_simps Let_def)

lemma framed_uniqueItemsStage: "framed (uniqueItemsStage rt s val c)"
proof -
  have "framed2 (fold (uniqueStep rt val c) val)"
    by (intro framed2_fold framed2_uniqueStep)
  then show ?thesis
    by (simp add: framed_def uniqueItemsStage_def framed2D Let_def case_prod_beta)
qed

lemma framed_validateArray: "framed (\<lambda>r. validateArray rt s val r c)"
  using framed_itemsStage[of rt s val c] framed_minItemsStage[of s "int (length val)" val c]
    framed_maxItemsStage[of s "int (length val)" val c] framed_uniqueItemsStage[of rt s val c]
  by (simp add: validateArray_stages framed_def frame_simps)

subsection \<open>Objects\<close>

lemma framed2_patternStep: "framed2 (patternStep rt s key val c pk)"
  by (simp add: framed2_def patternStep_def frame_simps Let_def split: option.splits)

lemma validatePatternProperty_frame:
  "validatePatternProperty rt s key val (mergeErrors r x) c =
     (fst (validatePatternProperty rt s key val x c),
      mergeErrors r (snd (validatePatternProperty rt s key val x c)))"
proof -
  have "framed2 (fold (patternStep rt s key val c)
                   (rangeKeys rt [RangePatterns] (map fst (patternProperties s))))"
    by (intro framed2_fold framed2_patternStep)
  then show ?thesis
    by (simp add: validatePatternProperty_loop framed2D frame_simps Let_def case_prod_beta)
qed

lemma framed_requiredStep: "framed (requiredStep val c k)"
  by (simp add: framed_def requiredStep_def frame_simps)

lemma framed_additionalFalseStep: "framed (additionalFalseStep rt s val c pk)"
  by (simp add: framed_def additionalFalseStep_def validatePatternProperty_frame frame_simps
        Let_def case_prod_beta)

lemma framed_additionalSchemaStep: "framed (additionalSchemaStep rt s a val c pk)"
  by (simp add: framed_def additionalSchemaStep_def validatePatternProperty_frame frame_simps
        Let_def case_prod_beta)

lemma framed_additionalNilStep: "framed (additionalNilStep rt s val c pk)"
  by (simp add: framed_def additionalNilStep_def validatePatternProperty_frame frame_simps
        Let_def case_prod_beta)

lemma framed_additionalPropertiesStage: "framed (additionalPropertiesStage rt s val c)"
proof -
  have "framed (fold (additionalFalseStep rt s val c) ks)"
    and "framed (fold (additionalSchemaStep rt s a val c) ks)"
    and "framed (fold (additionalNilStep rt s val c) ks)" for ks a
    by (intro framed_fold framed_additionalFalseStep framed_additionalSchemaStep
          framed_additionalNilStep)+
  then show ?thesis
    by (simp add: framed_def additionalPropertiesStage_def split: additional.splits)
qed

lemma framed_validateObject: "framed (\<lambda>r. validateObject rt s val r c)"
proof -
  have "framed (minPropertiesStage s val c)" "framed (maxPropertiesStage s val c)"
    by (simp_all add: framed_def minPropertiesStage_def maxPropertiesStage_def frame_simps
          split: option.splits)
  moreover have "framed (fold (requiredStep val c) (required s))"
    by (intro framed_fold framed_requiredStep)
  ultimately show ?thesis
    using framed_additionalPropertiesStage[of rt s val c]
    by (simp add: validateObject_stages framed_def frame_simps)
qed

subsection \<open>The walker\<close>

lemma framed_propertiesStep:
  assumes "\<And>rt' n c. framed (\<lambda>r. validateRecursive rt' p n r c)"
  shows "framed (propertiesStep rt m c (i, p))"
  using assms by (simp add: propertiesStep_def framed_def split: option.splits)

lemma framed_assertions:
  assumes deps: "\<And>rt' k d n c. map_of (dependencies s) k = Some (DependOnSchema d)
             \<Longrightarrow> framed (\<lambda>r. validateRecursive rt' d n r c)"
    and props: "\<And>rt' p n c. p \<in> set (propertiesChildren s)
             \<Longrightarrow> framed (\<lambda>r. validateRecursive rt' p n r c)"
  shows "framed (assertions rt s n c)"
proof -
  have sch: "validateSchema rt s n' (mergeErrors r x) c = mergeErrors r (validateSchema rt s n' x c)"
    for n' r x
    by (rule framedD[OF framed_validateSchema[where s = s and rt = rt and n = n' and c = c,
                            OF deps]])
  note com = framedD[OF framed_validateCommon]
  note str = framedD[OF framed_validateString]
  note num = framedD[OF framed_validateNumber]
  note arr = framedD[OF framed_validateArray]
  note obj = framedD[OF framed_validateObject]
  have "framed (propertiesStep rt m c ip)" if "ip \<in> set (enumerate 0 (propertiesChildren s))"
    for m ip
  proof -
    obtain i p where ip: "ip = (i, p)" by (cases ip)
    then have "p \<in> set (propertiesChildren s)"
      using that by (auto dest: in_set_enumerate_snd)
    then show ?thesis
      unfolding ip by (intro framed_propertiesStep props)
  qed
  then have "framed (fold (propertiesStep rt m c) (enumerate 0 (propertiesChildren s)))" for m
    by (intro framed_fold)
  note prp = framedD[OF this]
  show ?thesis
    by (cases n) (simp_all add: framed_def assertions_def sch com str num arr obj prp)
qed

lemma framed_validateRecursive: "framed (\<lambda>r. validateRecursive rt s n r c)"
proof (induction s arbitrary: rt n c rule: measure_induct_rule[of size])
  case (less s)
  show ?case
  proof (cases "refSchema s")
    case (Some ref)
    then show ?thesis
      using less[OF size_refSchema[OF Some]] by (simp add: validateRecursive_ref)
  next
    case None
    have "framed (assertions rt s n c)"
      by (intro framed_assertions less size_dependencies size_propertiesChildren)
    then show ?thesis
      by (simp add: validateRecursive_node[OF None] framed_def frame_simps)
  qed
qed

text \<open>The walker on a result is that result merged with the walker's own fresh result.\<close>

lemma validateRecursive_merge:
  "validateRecursive rt s n r c = mergeErrors r (subValidateWithContext rt s n c)"
proof -
  have "validateRecursive rt s n (mergeErrors r emptyResult) c =
          mergeErrors r (validateRecursive rt s n emptyResult c)"
    by (rule framedD[OF framed_validateRecursive])
  then show ?thesis
    by (simp add: subValidateWithContext_eq)
qed

section \<open>Pattern properties in closed form\<close>

lemma patternStep_one:
  "patternStep rt s key val c pk ((h, vk), r) =
     ((h \<or> patternMatches rt s key pk, vk \<or> patternValidates rt s key val c pk),
      mergeErrors r (patternResult rt s key val c pk))"
  by (cases "map_of (patternProperties s) pk")
     (auto simp add: patternStep_def patternMatches_def patternResult_def
        patternValidates_def Let_def)

lemma patternStep_fold:
  "fold (patternStep rt s key val c) ks ((h, vk), r) =
     ((h \<or> list_ex (patternMatches rt s key) ks,
       vk \<or> list_ex (patternValidates rt s key val c) ks),
      fold (\<lambda>pk r. mergeErrors r (patternResult rt s key val c pk)) ks r)"
  by (induction ks arbitrary: h vk r) (simp_all add: patternStep_one)

lemma validatePatternProperty_closed:
  "validatePatternProperty rt s key val r c =
     ((list_ex (patternMatches rt s key) (rangeKeys rt [RangePatterns] (map fst (patternProperties s))),
       list_ex (patternValidates rt s key val c) (rangeKeys rt [RangePatterns] (map fst (patternProperties s)))),
      (if list_ex (patternValidates rt s key val c) (rangeKeys rt [RangePatterns] (map fst (patternProperties s)))
       then incrementScore else (\<lambda>r. r))
        (fold (\<lambda>pk r. mergeErrors r (patternResult rt s key val c pk))
           (rangeKeys rt [RangePatterns] (map fst (patternProperties s))) r))"
  by (simp add: validatePatternProperty_loop patternStep_fold)

section \<open>Where errors are located\<close>

lemma depth_newJsonContext [simp]: "depth (newJsonContext h (Some c)) = Suc (depth c)"
  by (simp add: newJsonContext_def)

lemma under_sub: "atOrBelow (newJsonContext h (Some c)) e \<Longrightarrow> atOrBelow c e"
  by (auto simp add: atOrBelow_def)

lemma under_here:
  "a \<noteq> KEY_ADDITIONAL_PROPERTIES \<Longrightarrow>
   atOrBelow c \<lparr>Context = c, Value = v, Attribute = a, Requirement = q\<rparr>"
  by (simp add: atOrBelow_def)

lemma under_child:
  "atOrBelow c \<lparr>Context = newJsonContext h (Some c), Value = v, Attribute = a, Requirement = q\<rparr>"
  by (simp add: atOrBelow_def)

lemma list_all_under_sub:
  "list_all (atOrBelow (newJsonContext h (Some c))) es \<Longrightarrow> list_all (atOrBelow c) es"
  by (induction es) (auto intro: under_sub)

lemma keepsD: "keeps Q f \<Longrightarrow> list_all Q (errors r) \<Longrightarrow> list_all Q (errors (f r))"
  by (simp add: keeps_def)

lemma keeps_fold:
  assumes "\<And>a. a \<in> set xs \<Longrightarrow> keeps Q (f a)"
  shows "keeps Q (fold f xs)"
  using assms
proof (induction xs)
  case Nil
  show ?case by (simp add: keeps_def)
next
  case (Cons a xs)
  then have "keeps Q (f a)" and "keeps Q (fold f xs)" by simp_all
  then show ?case by (simp add: keeps_def)
qed

lemma keeps_fold2:
  assumes "\<And>a s r. a \<in> set xs \<Longrightarrow> list_all Q (errors r) \<Longrightarrow> list_all Q (errors (snd (f a (s, r))))"
    and "list_all Q (errors r)"
  shows "list_all Q (errors (snd (fold f xs (s, r))))"
  using assms
proof (induction xs arbitrary: s r)
  case Nil
  then show ?case by simp
next
  case (Cons a xs)
  obtain s' r' where fa: "f a (s, r) = (s', r')" by (cases "f a (s, r)")
  have "list_all Q (errors r')"
    using Cons.prems(1)[of a r s] Cons.prems(2) fa by simp
  then have "list_all Q (errors (snd (fold f xs (s', r'))))"
    using Cons.prems(1) by (intro Cons.IH) simp_all
  then show ?case using fa by simp
qed

subsection \<open>The leaf routines\<close>

lemma KEY_ADDITIONAL_PROPERTIES_neq:
  "KEY_TYPE \<noteq> KEY_ADDITIONAL_PROPERTIES" "KEY_ENUM \<noteq> KEY_ADDITIONAL_PROPERTIES"
  "KEY_MIN_LENGTH \<noteq> KEY_ADDITIONAL_PROPERTIES" "KEY_MAX_LENGTH \<noteq> KEY_ADDITIONAL_PROPERTIES"
  "KEY_PATTERN \<noteq> KEY_ADDITIONAL_PROPERTIES" "KEY_MULTIPLE_OF \<noteq> KEY_ADDITIONAL_PROPERTIES"
  "KEY_MAXIMUM \<noteq> KEY_ADDITIONAL_PROPERTIES" "KEY_EXCLUSIVE_MAXIMUM \<noteq> KEY_ADDITIONAL_PROPERTIES"
  "KEY_MINIMUM \<noteq> KEY_ADDITIONAL_PROPERTIES" "KEY_EXCLUSIVE_MINIMUM \<noteq> KEY_ADDITIONAL_PROPERTIES"
  "KEY_ANY_OF \<noteq> KEY_ADDITIONAL_PROPERTIES" "KEY_ONE_OF \<noteq> KEY_ADDITIONAL_PROPERTIES"
  "KEY_ALL_OF \<noteq> KEY_ADDITIONAL_PROPERTIES" "KEY_NOT \<noteq> KEY_ADDITIONAL_PROPERTIES"
  "KEY_ADDITIONAL_ITEMS \<noteq> KEY_ADDITIONAL_PROPERTIES" "KEY_MIN_ITEMS \<noteq> KEY_ADDITIONAL_PROPERTIES"
  "KEY_MAX_ITEMS \<noteq> KEY_ADDITIONAL_PROPERTIES" "KEY_UNIQUE_ITEMS \<noteq> KEY_ADDITIONAL_PROPERTIES"
  "KEY_MIN_PROPERTIES \<noteq> KEY_ADDITIONAL_PROPERTIES" "KEY_MAX_PROPERTIES \<noteq> KEY_ADDITIONAL_PROPERTIES"
  "KEY_REQUIRED \<noteq> KEY_ADDITIONAL_PROPERTIES" "KEY_DEPENDENCIES \<noteq> KEY_ADDITIONAL_PROPERTIES"
  "KEY_PATTERN_PROPERTIES \<noteq> KEY_ADDITIONAL_PROPERTIES"
  by (simp_all add: KEY_defs)

lemmas under_simps = under_here under_child KEY_ADDITIONAL_PROPERTIES_neq

lemma keeps_validateCommon: "keeps (atOrBelow c) (\<lambda>r. validateCommon rt s n r c)"
  by (simp add: keeps_def validateCommon_def under_simps)

lemma keeps_validateString: "keeps (atOrBelow c) (\<lambda>r. validateString rt s n r c)"
  by (cases n)
     (simp_all add: keeps_def validateString_def under_simps Let_def split: option.splits)

lemma keeps_validateNumber: "keeps (atOrBelow c) (\<lambda>r. validateNumber s n r c)"
  by (cases n)
     (simp_all add: keeps_def validateNumber_def under_simps Let_def split: option.splits)

subsection \<open>Schema-level stages\<close>

lemma getBestResult_in_set: "getBestResult rs = Some b \<Longrightarrow> b \<in> set rs"
  using getBestResult_Some_strict_max[of rs b] by (metis nth_mem)

lemma anyOf_fold_results:
  "set (snd (fold (anyOfStep rt n c) xs (v, rs)))
     \<subseteq> set rs \<union> (\<lambda>(i, a). subValidateWithContext (atSite rt (InAnyOf i)) a n c) ` set xs"
proof (induction xs arbitrary: v rs)
  case Nil
  show ?case by simp
next
  case (Cons ia xs)
  obtain i a where ia: "ia = (i, a)" by (cases ia)
  let ?x = "subValidateWithContext (atSite rt (InAnyOf i)) a n c"
  show ?case
    using Cons[of "Valid ?x" "rs @ [?x]"] Cons[of v rs]
    by (auto simp add: ia anyOfStep_def Let_def)
qed

lemma oneOf_fold_results:
  "set (fst (fold (oneOfStep rt n c) xs (rs, k)))
     \<subseteq> set rs \<union> (\<lambda>(i, a). subValidateWithContext (atSite rt (InOneOf i)) a n c) ` set xs"
proof (induction xs arbitrary: k rs)
  case Nil
  show ?case by simp
next
  case (Cons ia xs)
  obtain i a where ia: "ia = (i, a)" by (cases ia)
  let ?x = "subValidateWithContext (atSite rt (InOneOf i)) a n c"
  show ?case
    using Cons[of "rs @ [?x]" k] Cons[of rs "k + 1"]
    by (auto simp add: ia oneOfStep_def Let_def)
qed

lemma keeps_anyOfStage:
  assumes "\<And>rt' a. a \<in> set (anyOf s) \<Longrightarrow> list_all Q (errors (subValidateWithContext rt' a n c))"
    and "\<And>v q. Q \<lparr>Context = c, Value = v, Attribute = KEY_ANY_OF, Requirement = q\<rparr>"
  shows "keeps Q (anyOfStage rt s n c)"
proof -
  have "list_all Q (errors b)"
    if "getBestResult (snd (fold (anyOfStep rt n c) (enumerate 0 (anyOf s)) (False, [])))
        = Some b" for b
  proof -
    have "b \<in> set (snd (fold (anyOfStep rt n c) (enumerate 0 (anyOf s)) (False, [])))"
      using that by (rule getBestResult_in_set)
    then obtain i a where "(i, a) \<in> set (enumerate 0 (anyOf s))"
      and "b = subValidateWithContext (atSite rt (InAnyOf i)) a n c"
      using anyOf_fold_results[of rt n c "enumerate 0 (anyOf s)" False "[]"] by auto
    then show ?thesis using assms(1) by (auto dest: in_set_enumerate_snd)
  qed
  then show ?thesis
    using assms(2)
    by (auto simp add: keeps_def anyOfStage_def Let_def case_prod_beta split: option.splits)
qed

lemma keeps_oneOfStage:
  assumes "\<And>rt' a. a \<in> set (oneOf s) \<Longrightarrow> list_all Q (errors (subValidateWithContext rt' a n c))"
    and "\<And>v q. Q \<lparr>Context = c, Value = v, Attribute = KEY_ONE_OF, Requirement = q\<rparr>"
  shows "keeps Q (oneOfStage rt s n c)"
proof -
  have "list_all Q (errors b)"
    if "getBestResult (fst (fold (oneOfStep rt n c) (enumerate 0 (oneOf s)) ([], 0))) = Some b"
    for b
  proof -
    have "b \<in> set (fst (fold (oneOfStep rt n c) (enumerate 0 (oneOf s)) ([], 0)))"
      using that by (rule getBestResult_in_set)
    then obtain i a where "(i, a) \<in> set (enumerate 0 (oneOf s))"
      and "b = subValidateWithContext (atSite rt (InOneOf i)) a n c"
      using oneOf_fold_results[of rt n c "enumerate 0 (oneOf s)" "[]" 0] by auto
    then show ?thesis using assms(1) by (auto dest: in_set_enumerate_snd)
  qed
  then show ?thesis
    using assms(2)
    by (auto simp add: keeps_def oneOfStage_def Let_def case_prod_beta
          split: option.splits if_splits)
qed

lemma keeps_allOfStage:
  assumes "\<And>rt' a. a \<in> set (allOf s) \<Longrightarrow> list_all Q (errors (subValidateWithContext rt' a n c))"
    and "\<And>v q. Q \<lparr>Context = c, Value = v, Attribute = KEY_ALL_OF, Requirement = q\<rparr>"
  shows "keeps Q (allOfStage rt s n c)"
proof -
  have "list_all Q (errors (snd (fold (allOfStep rt n c) (enumerate 0 (allOf s)) (0, r))))"
    if "list_all Q (errors r)" for r
    using that
    by (intro keeps_fold2)
       (auto simp add: allOfStep_def Let_def assms(1) dest: in_set_enumerate_snd)
  then show ?thesis
    using assms(2)
    by (simp add: keeps_def allOfStage_def Let_def case_prod_beta)
qed

lemma keeps_notStage:
  assumes "\<And>v q. Q \<lparr>Context = c, Value = v, Attribute = KEY_NOT, Requirement = q\<rparr>"
  shows "keeps Q (notStage rt s n c)"
  using assms by (simp add: keeps_def notStage_def Let_def split: option.splits)

lemma keeps_dependencyStep:
  assumes "\<And>rt' d. map_of (dependencies s) k = Some (DependOnSchema d)
             \<Longrightarrow> list_all (atOrBelow c) (errors (subValidateWithContext rt' d n c))"
  shows "keeps (atOrBelow c) (dependencyStep rt s n m c k)"
proof (cases "map_of (dependencies s) k")
  case None
  then show ?thesis by (simp add: dependencyStep_def keeps_def)
next
  case (Some dep)
  show ?thesis
  proof (cases dep)
    case (DependOnKeys ks)
    have "keeps (atOrBelow c) (fold (\<lambda>dependOnKey r'.
                    if \<not> hasKey m dependOnKey
                    then addError r' (newJsonContext k (Some c)) KEY_DEPENDENCIES (ReqStrings ks)
                           (ValNode n)
                    else r') ks)"
      by (intro keeps_fold) (simp add: keeps_def under_simps)
    then show ?thesis
      using Some DependOnKeys by (simp add: dependencyStep_def keeps_def)
  next
    case (DependOnSchema d)
    then show ?thesis
      using Some assms[of d "atSite rt (InDependency k)"]
      by (simp add: dependencyStep_def keeps_def validateRecursive_merge)
  qed
qed

lemma keeps_dependenciesStage:
  assumes "\<And>rt' k d. map_of (dependencies s) k = Some (DependOnSchema d)
             \<Longrightarrow> list_all (atOrBelow c) (errors (subValidateWithContext rt' d n c))"
  shows "keeps (atOrBelow c) (dependenciesStage rt s n c)"
proof -
  have "keeps (atOrBelow c) (fold (dependencyStep rt s n m c) ks)" for m ks
    by (intro keeps_fold keeps_dependencyStep assms)
  then show ?thesis
    by (cases n) (simp_all add: dependenciesStage_def keeps_def)
qed

lemma keeps_validateSchema:
  assumes "\<And>rt' a. a \<in> set (anyOf s) \<Longrightarrow> list_all (atOrBelow c) (errors (subValidateWithContext rt' a n c))"
    and "\<And>rt' a. a \<in> set (oneOf s) \<Longrightarrow> list_all (atOrBelow c) (errors (subValidateWithContext rt' a n c))"
    and "\<And>rt' a. a \<in> set (allOf s) \<Longrightarrow> list_all (atOrBelow c) (errors (subValidateWithContext rt' a n c))"
    and "\<And>rt' k d. map_of (dependencies s) k = Some (DependOnSchema d)
             \<Longrightarrow> list_all (atOrBelow c) (errors (subValidateWithContext rt' d n c))"
  shows "keeps (atOrBelow c) (\<lambda>r. validateSchema rt s n r c)"
proof -
  have "keeps (atOrBelow c) (anyOfStage rt s n c)"
    by (intro keeps_anyOfStage assms(1)) (simp_all add: under_simps)
  moreover have "keeps (atOrBelow c) (oneOfStage rt s n c)"
    by (intro keeps_oneOfStage assms(2)) (simp_all add: under_simps)
  moreover have "keeps (atOrBelow c) (allOfStage rt s n c)"
    by (intro keeps_allOfStage assms(3)) (simp_all add: under_simps)
  moreover have "keeps (atOrBelow c) (notStage rt s n c)"
    by (intro keeps_notStage) (simp_all add: under_simps)
  moreover have "keeps (atOrBelow c) (dependenciesStage rt s n c)"
    by (intro keeps_dependenciesStage assms(4))
  ultimately show ?thesis
    by (simp add: validateSchema_stages keeps_def)
qed

subsection \<open>Arrays\<close>

lemma keeps_itemStep:
  assumes "list_all (atOrBelow (newJsonContext (Itoa i) (Some c)))
             (errors (subValidateWithContext (atSite rt (InItem i)) (sch i) (val ! i)
                        (newJsonContext (Itoa i) (Some c))))"
  shows "keeps (atOrBelow c) (itemStep rt sch val c i)"
  using list_all_under_sub[OF assms] by (simp add: keeps_def itemStep_def Let_def)

lemma keeps_itemsStage:
  assumes "\<And>rt' a n c'. a \<in> set (itemsChildren s)
             \<Longrightarrow> list_all (atOrBelow c') (errors (subValidateWithContext rt' a n c'))"
    and "\<And>rt' a n c'. additionalItems s = AdditionalSchema a
             \<Longrightarrow> list_all (atOrBelow c') (errors (subValidateWithContext rt' a n c'))"
  shows "keeps (atOrBelow c) (itemsStage rt s val c)"
proof -
  have single: "keeps (atOrBelow c) (fold (itemStep rt (\<lambda>i. a) val c) is)"
    if "a \<in> set (itemsChildren s)" for a "is"
    by (intro keeps_fold keeps_itemStep assms(1) that)
  have tuple: "keeps (atOrBelow c) (fold (itemStep rt (\<lambda>i. itemsChildren s ! i) val c)
                                  [0..<length (itemsChildren s)])"
    by (intro keeps_fold keeps_itemStep assms(1)) simp
  have more: "keeps (atOrBelow c) (fold (itemStep rt (\<lambda>i. a) val c) is)"
    if "additionalItems s = AdditionalSchema a" for a "is"
    by (intro keeps_fold keeps_itemStep assms(2) that)
  show ?thesis
    unfolding keeps_def itemsStage_def Let_def
  proof (intro allI impI)
    fix r :: Result
    assume r: "list_all (atOrBelow c) (errors r)"
    note k = keepsD[OF _ r]
    show "list_all (atOrBelow c) (errors
        (if itemsChildrenIsSingleSchema s then
           (case itemsChildren s of [] \<Rightarrow> r
            | item0 # others \<Rightarrow> fold (itemStep rt (\<lambda>i. item0) val c) [0..<length val] r)
         else if 0 < length (itemsChildren s) then
           (if length (itemsChildren s) = length val then
              fold (itemStep rt ((!) (itemsChildren s)) val c) [0..<length (itemsChildren s)] r
            else if length (itemsChildren s) < length val then
              (case additionalItems s of
                 AdditionalNil \<Rightarrow> r
               | AdditionalBool b \<Rightarrow>
                   if \<not> b then addError r c KEY_ADDITIONAL_ITEMS
                     (ReqAdditional (additionalItems s)) (ValNode (JArray val)) else r
               | AdditionalSchema additionalItemSchema \<Rightarrow>
                   fold (itemStep rt (\<lambda>i. additionalItemSchema) val c)
                     [length (itemsChildren s)..<length val] r)
            else r)
         else r))"
      using r k[OF single] k[OF tuple] k[OF more]
      by (auto simp add: under_simps split: list.splits additional.splits)
  qed
qed

lemma keeps_uniqueItemsStage: "keeps (atOrBelow c) (uniqueItemsStage rt s val c)"
proof -
  have "list_all (atOrBelow c) (errors (snd (fold (uniqueStep rt val c) val ([], r))))"
    if "list_all (atOrBelow c) (errors r)" for r
    using that
    by (intro keeps_fold2) (simp_all add: uniqueStep_def Let_def under_simps)
  then show ?thesis
    by (simp add: keeps_def uniqueItemsStage_def Let_def case_prod_beta)
qed

lemma keeps_validateArray:
  assumes "\<And>rt' a n c'. a \<in> set (itemsChildren s)
             \<Longrightarrow> list_all (atOrBelow c') (errors (subValidateWithContext rt' a n c'))"
    and "\<And>rt' a n c'. additionalItems s = AdditionalSchema a
             \<Longrightarrow> list_all (atOrBelow c') (errors (subValidateWithContext rt' a n c'))"
  shows "keeps (atOrBelow c) (\<lambda>r. validateArray rt s val r c)"
proof -
  have "keeps (atOrBelow c) (minItemsStage s k val c)" "keeps (atOrBelow c) (maxItemsStage s k val c)"
    for k
    by (simp_all add: keeps_def minItemsStage_def maxItemsStage_def under_simps
          split: option.splits)
  then show ?thesis
    using keeps_itemsStage[where s = s and rt = rt and c = c and val = val, OF assms]
      keeps_uniqueItemsStage[of c rt s val]
    by (simp add: validateArray_stages keeps_def)
qed

subsection \<open>Objects\<close>

lemma list_all_fold_mergeErrors:
  assumes "\<And>a. a \<in> set xs \<Longrightarrow> list_all Q (errors (g a))"
    and "list_all Q (errors r)"
  shows "list_all Q (errors (fold (\<lambda>a r. mergeErrors r (g a)) xs r))"
  using assms by (induction xs arbitrary: r) simp_all

lemma patternResult_located:
  assumes "\<And>rt' pv n c'. map_of (patternProperties s) pk = Some pv
             \<Longrightarrow> list_all (atOrBelow c') (errors (subValidateWithContext rt' pv n c'))"
  shows "list_all (atOrBelow (newJsonContext key (Some c))) (errors (patternResult rt s key val c pk))"
  using assms by (simp add: patternResult_def split: option.splits)

lemma validatePatternProperty_located:
  assumes "\<And>rt' pk pv n c'. map_of (patternProperties s) pk = Some pv
             \<Longrightarrow> list_all (atOrBelow c') (errors (subValidateWithContext rt' pv n c'))"
    and "list_all (atOrBelow c) (errors r)"
  shows "list_all (atOrBelow c) (errors (snd (validatePatternProperty rt s key val r c)))"
proof -
  have "list_all (atOrBelow c) (errors (patternResult rt s key val c pk))" for pk
    by (intro list_all_under_sub[OF patternResult_located] assms(1))
  then have "list_all (atOrBelow c)
      (errors (fold (\<lambda>pk r. mergeErrors r (patternResult rt s key val c pk)) ks r))" for ks
    using assms(2) by (intro list_all_fold_mergeErrors)
  then show ?thesis
    by (simp add: validatePatternProperty_closed)
qed

lemma keeps_additionalPropertiesStage:
  assumes pats: "\<And>rt' pk pv n c'. map_of (patternProperties s) pk = Some pv
             \<Longrightarrow> list_all (atOrBelow c') (errors (subValidateWithContext rt' pv n c'))"
    and more: "\<And>rt' a n c'. additionalProperties s = AdditionalSchema a
             \<Longrightarrow> list_all (atOrBelow c') (errors (subValidateWithContext rt' a n c'))"
  shows "keeps (atOrBelow c) (additionalPropertiesStage rt s val c)"
proof -
  note vpp = validatePatternProperty_located[where s = s and c = c, OF pats]
  have f: "keeps (atOrBelow c) (additionalFalseStep rt s val c pk)" for pk
    using vpp
    by (simp add: keeps_def additionalFalseStep_def Let_def case_prod_beta under_simps)
  have n: "keeps (atOrBelow c) (additionalNilStep rt s val c pk)" for pk
    using vpp
    by (simp add: keeps_def additionalNilStep_def Let_def case_prod_beta under_simps)
  have a: "keeps (atOrBelow c) (additionalSchemaStep rt s a val c pk)"
    if "additionalProperties s = AdditionalSchema a" for a pk
    using vpp more[OF that]
    by (simp add: keeps_def additionalSchemaStep_def Let_def case_prod_beta)
  have "keeps (atOrBelow c) (fold (additionalFalseStep rt s val c) ks)"
    and "keeps (atOrBelow c) (fold (additionalNilStep rt s val c) ks)" for ks
    by (intro keeps_fold f n)+
  moreover have "keeps (atOrBelow c) (fold (additionalSchemaStep rt s a val c) ks)"
    if "additionalProperties s = AdditionalSchema a" for a ks
    by (intro keeps_fold a that)
  ultimately show ?thesis
    by (simp add: keeps_def additionalPropertiesStage_def split: additional.splits)
qed

lemma keeps_requiredStep: "keeps (atOrBelow c) (requiredStep val c k)"
  by (simp add: keeps_def requiredStep_def under_simps)

lemma keeps_validateObject:
  assumes "\<And>rt' pk pv n c'. map_of (patternProperties s) pk = Some pv
             \<Longrightarrow> list_all (atOrBelow c') (errors (subValidateWithContext rt' pv n c'))"
    and "\<And>rt' a n c'. additionalProperties s = AdditionalSchema a
             \<Longrightarrow> list_all (atOrBelow c') (errors (subValidateWithContext rt' a n c'))"
  shows "keeps (atOrBelow c) (\<lambda>r. validateObject rt s val r c)"
proof -
  have "keeps (atOrBelow c) (minPropertiesStage s val c)"
    "keeps (atOrBelow c) (maxPropertiesStage s val c)"
    by (simp_all add: keeps_def minPropertiesStage_def maxPropertiesStage_def under_simps
          split: option.splits)
  moreover have "keeps (atOrBelow c) (fold (requiredStep val c) (required s))"
    by (intro keeps_fold keeps_requiredStep)
  ultimately show ?thesis
    using keeps_additionalPropertiesStage[where s = s and rt = rt and c = c and val = val,
            OF assms]
    by (simp add: validateObject_stages keeps_def)
qed

subsection \<open>The walker\<close>

lemma keeps_propertiesStep:
  assumes "\<And>rt' n c'. list_all (atOrBelow c') (errors (subValidateWithContext rt' p n c'))"
  shows "keeps (atOrBelow c) (propertiesStep rt m c (i, p))"
proof -
  have "list_all (atOrBelow c)
          (errors (subValidateWithContext rt' p n (newJsonContext (property p) (Some c))))"
    for rt' n
    by (rule list_all_under_sub[OF assms])
  then show ?thesis
    by (simp add: keeps_def propertiesStep_def validateRecursive_merge split: option.splits)
qed

lemma size_children: "a \<in> children s \<Longrightarrow> size a < size s"
  by (auto simp add: children_def size_anyOf size_oneOf size_allOf size_itemsChildren
        size_propertiesChildren size_dependencies size_patternProperties size_additionalItems
        size_additionalProperties size_not)

lemma keeps_assertions:
  assumes "\<And>rt' a n c'. a \<in> children s
             \<Longrightarrow> list_all (atOrBelow c') (errors (subValidateWithContext rt' a n c'))"
  shows "keeps (atOrBelow c) (assertions rt s n c)"
proof -
  have ch: "list_all (atOrBelow c') (errors (subValidateWithContext rt' a n' c'))"
    if "a \<in> children s" for rt' a n' c'
    using assms that .
  have sch: "keeps (atOrBelow c) (\<lambda>r. validateSchema rt s n' r c)" for n'
    by (intro keeps_validateSchema ch) (auto simp add: children_def)
  have arr: "keeps (atOrBelow c) (\<lambda>r. validateArray rt s xs r c)" for xs
    by (intro keeps_validateArray ch) (auto simp add: children_def)
  have obj: "keeps (atOrBelow c) (\<lambda>r. validateObject rt s m r c)" for m
    by (intro keeps_validateObject ch) (auto simp add: children_def)
  have "keeps (atOrBelow c) (propertiesStep rt m c ip)"
    if "ip \<in> set (enumerate 0 (propertiesChildren s))" for m ip
  proof -
    obtain i p where ip: "ip = (i, p)" by (cases ip)
    then have "p \<in> children s"
      using that by (auto simp add: children_def dest: in_set_enumerate_snd)
    then show ?thesis
      unfolding ip by (intro keeps_propertiesStep ch)
  qed
  then have prp: "keeps (atOrBelow c)
                    (fold (propertiesStep rt m c) (enumerate 0 (propertiesChildren s)))" for m
    by (intro keeps_fold)
  note k = keepsD[OF sch] keepsD[OF arr] keepsD[OF obj] keepsD[OF prp]
    keepsD[OF keeps_validateCommon] keepsD[OF keeps_validateString]
    keepsD[OF keeps_validateNumber]
  show ?thesis
    by (cases n) (simp_all add: keeps_def assertions_def k)
qed

text \<open>
  Every error of a validation at context \<open>c\<close> lies at \<open>c\<close> or below, and its
  \<open>additionalProperties\<close> errors strictly below.
\<close>

lemma subValidateWithContext_located:
  "list_all (atOrBelow c) (errors (subValidateWithContext rt s n c))"
proof (induction s arbitrary: rt n c rule: measure_induct_rule[of size])
  case (less s)
  show ?case
  proof (cases "refSchema s")
    case (Some ref)
    then show ?thesis
      using less[OF size_refSchema[OF Some]]
      by (simp add: subValidateWithContext_eq validateRecursive_ref)
  next
    case None
    have "keeps (atOrBelow c) (assertions rt s n c)"
      by (intro keeps_assertions less size_children)
    from keepsD[OF this, of emptyResult] show ?thesis
      by (simp add: subValidateWithContext_eq validateRecursive_node[OF None] under_simps)
  qed
qed

section \<open>Additional properties\<close>

lemma patternMatches_keys:
  assumes "set ks = set (map fst (patternProperties s))"
  shows "list_ex (patternMatches rt s k) ks
         \<longleftrightarrow> list_ex (\<lambda>(p, ps). regexpMatchString rt p k) (patternProperties s)"
proof
  assume "list_ex (patternMatches rt s k) ks"
  then obtain pk where "pk \<in> set ks" "patternMatches rt s k pk"
    by (auto simp add: list_ex_iff)
  then obtain pv where "map_of (patternProperties s) pk = Some pv" "regexpMatchString rt pk k"
    by (auto simp add: patternMatches_def split: option.splits)
  then have "(pk, pv) \<in> set (patternProperties s)" "regexpMatchString rt pk k"
    by (auto dest: map_of_SomeD)
  then show "list_ex (\<lambda>(p, ps). regexpMatchString rt p k) (patternProperties s)"
    by (auto simp add: list_ex_iff)
next
  assume "list_ex (\<lambda>(p, ps). regexpMatchString rt p k) (patternProperties s)"
  then obtain p ps where p: "(p, ps) \<in> set (patternProperties s)" "regexpMatchString rt p k"
    by (auto simp add: list_ex_iff)
  then have "p \<in> set ks" using assms by force
  moreover have "map_of (patternProperties s) p \<noteq> None"
    using p(1) by (metis map_of_eq_None_iff fst_conv image_eqI)
  ultimately show "list_ex (patternMatches rt s k) ks"
    using p(2) by (auto simp add: list_ex_iff patternMatches_def split: option.splits)
qed

lemma patternValidates_keys:
  assumes "set ks = set (map fst (patternProperties s))"
    and "distinct (map fst (patternProperties s))"
  shows "list_ex (patternValidates rt s k v c) ks
         \<longleftrightarrow> list_ex (\<lambda>(p, ps). regexpMatchString rt p k
                          \<and> Valid (subValidateWithContext (atSite rt (InPattern p)) ps v
                                   (newJsonContext k (Some c))))
               (patternProperties s)"
proof
  assume "list_ex (patternValidates rt s k v c) ks"
  then obtain pk where "pk \<in> set ks" "patternValidates rt s k v c pk"
    by (auto simp add: list_ex_iff)
  then obtain pv where "map_of (patternProperties s) pk = Some pv" "regexpMatchString rt pk k"
    "Valid (subValidateWithContext (atSite rt (InPattern pk)) pv v (newJsonContext k (Some c)))"
    by (auto simp add: patternValidates_def patternMatches_def patternResult_def
          split: option.splits)
  then have "(pk, pv) \<in> set (patternProperties s)" "regexpMatchString rt pk k"
    "Valid (subValidateWithContext (atSite rt (InPattern pk)) pv v (newJsonContext k (Some c)))"
    by (auto dest: map_of_SomeD)
  then show "list_ex (\<lambda>(p, ps). regexpMatchString rt p k
                          \<and> Valid (subValidateWithContext (atSite rt (InPattern p)) ps v
                                   (newJsonContext k (Some c))))
               (patternProperties s)"
    unfolding list_ex_iff by blast
next
  assume "list_ex (\<lambda>(p, ps). regexpMatchString rt p k
                          \<and> Valid (subValidateWithContext (atSite rt (InPattern p)) ps v
                                   (newJsonContext k (Some c))))
               (patternProperties s)"
  then obtain p ps where p: "(p, ps) \<in> set (patternProperties s)" "regexpMatchString rt p k"
    "Valid (subValidateWithContext (atSite rt (InPattern p)) ps v
                                   (newJsonContext k (Some c)))"
    unfolding list_ex_iff by blast
  then have "p \<in> set ks" using assms(1) by force
  moreover have "map_of (patternProperties s) p = Some ps"
    using p(1) assms(2) by simp
  ultimately have "p \<in> set ks \<and> patternValidates rt s k v c p"
    using p(2,3)
    by (simp add: patternValidates_def patternMatches_def patternResult_def)
  then show "list_ex (patternValidates rt s k v c) ks"
    unfolding list_ex_iff by blast
qed

lemma no_additionalPropertyError_below:
  assumes "list_all (atOrBelow (newJsonContext h (Some c))) es"
  shows "filter (additionalPropertyErrorAt c k) es = []"
proof -
  have "\<not> additionalPropertyErrorAt c k e" if "e \<in> set es" for e
  proof
    assume a: "additionalPropertyErrorAt c k e"
    have "atOrBelow (newJsonContext h (Some c)) e"
      using assms that by (simp add: list_all_iff)
    with a show False
      by (simp add: additionalPropertyErrorAt_def atOrBelow_def)
  qed
  then show ?thesis by (simp add: filter_empty_conv)
qed

lemma filter_fold_mergeErrors:
  assumes "\<And>a. filter Q (errors (g a)) = []"
  shows "filter Q (errors (fold (\<lambda>a r. mergeErrors r (g a)) xs r)) = filter Q (errors r)"
  using assms by (induction xs arbitrary: r) simp_all

lemma validatePatternProperty_no_additionalPropertyError:
  "filter (additionalPropertyErrorAt c k) (errors (snd (validatePatternProperty rt s pk v r c)))
   = filter (additionalPropertyErrorAt c k) (errors r)"
proof -
  have "filter (additionalPropertyErrorAt c k) (errors (patternResult rt s pk v c p)) = []" for p
  proof (cases "map_of (patternProperties s) p")
    case None
    then show ?thesis by (simp add: patternResult_def)
  next
    case (Some pv)
    have "list_all (atOrBelow (newJsonContext pk (Some c)))
            (errors (subValidateWithContext (atSite rt (InPattern p)) pv v
                       (newJsonContext pk (Some c))))"
      by (rule subValidateWithContext_located)
    from no_additionalPropertyError_below[OF this] show ?thesis
      using Some by (simp add: patternResult_def)
  qed
  then show ?thesis
    by (simp add: validatePatternProperty_closed filter_fold_mergeErrors)
qed

lemma newJsonContext_inject [simp]:
  "newJsonContext h t = newJsonContext h' t' \<longleftrightarrow> h = h' \<and> t = t'"
  by (simp add: newJsonContext_def)

text \<open>One round of the loop over the keys of the document.\<close>

lemma additionalFalseStep_count:
  assumes "set (rangeKeys rt [InKey k, RangePatterns] (map fst (patternProperties s)))
           = set (map fst (patternProperties s))"
    and "distinct (map fst (patternProperties s))"
  shows "filter (additionalPropertyErrorAt c k) (errors (additionalFalseStep rt s val c pk r))
         = filter (additionalPropertyErrorAt c k) (errors r)
           @ (if pk = k \<and> \<not> permitted rt s val c k
              then [\<lparr>Context = newJsonContext k (Some c), Value = ValEmptyProperty,
                     Attribute = KEY_ADDITIONAL_PROPERTIES,
                     Requirement =
                       (if list_ex (\<lambda>sp. k = property sp) (propertiesChildren s)
                        then ReqPatternProperties (patternProperties s) else ReqNil)\<rparr>]
              else [])"
proof -
  note keep = validatePatternProperty_no_additionalPropertyError
                [of c k "atSite rt (InKey pk)" s pk "mapIndex val pk" r]
  show ?thesis
  proof (cases "pk = k")
    case True
    have keys: "set (rangeKeys (atSite rt (InKey k)) [RangePatterns]
                       (map fst (patternProperties s)))
                = set (map fst (patternProperties s))"
      using assms(1) by simp
    have flags: "fst (validatePatternProperty (atSite rt (InKey k)) s k (mapIndex val k) r c) =
        (list_ex (\<lambda>(p, ps). regexpMatchString rt p k) (patternProperties s),
         list_ex (\<lambda>(p, ps). regexpMatchString rt p k
                   \<and> Valid (subValidateWithContext (atSite (atSite rt (InKey k)) (InPattern p))
                              ps (mapIndex val k) (newJsonContext k (Some c))))
           (patternProperties s))"
      using patternMatches_keys[OF keys, of "atSite rt (InKey k)" k]
        patternValidates_keys[OF keys assms(2), of "atSite rt (InKey k)" k "mapIndex val k" c]
      by (simp add: validatePatternProperty_closed)
    have imp: "list_ex (\<lambda>(p, ps). regexpMatchString rt p k
                   \<and> Valid (subValidateWithContext (atSite (atSite rt (InKey k)) (InPattern p))
                              ps (mapIndex val k) (newJsonContext k (Some c))))
           (patternProperties s)
        \<Longrightarrow> list_ex (\<lambda>(p, ps). regexpMatchString rt p k) (patternProperties s)"
      unfolding list_ex_iff by blast
    show ?thesis
      using flags keep imp True
      by (auto simp add: additionalFalseStep_def Let_def case_prod_beta permitted_def
            additionalPropertyErrorAt_def)
  next
    case False
    show ?thesis
      using keep False
      by (auto simp add: additionalFalseStep_def Let_def case_prod_beta
            additionalPropertyErrorAt_def)
  qed
qed

lemma additionalFalse_fold_count:
  assumes "set (rangeKeys rt [InKey k, RangePatterns] (map fst (patternProperties s)))
           = set (map fst (patternProperties s))"
    and "distinct (map fst (patternProperties s))"
  shows "length (filter (additionalPropertyErrorAt c k)
                   (errors (fold (additionalFalseStep rt s val c) ks r)))
         = length (filter (additionalPropertyErrorAt c k) (errors r))
           + (if permitted rt s val c k then 0 else count_list ks k)"
proof (induction ks arbitrary: r)
  case Nil
  show ?case by simp
next
  case (Cons pk ks)
  show ?case
    by (simp add: Cons additionalFalseStep_count[OF assms])
qed

text \<open>
  C5, as the code has it. For an object with \<open>additionalProperties\<close> false and a key \<open>k\<close>
  of the object, \<open>validateObject\<close> adds no \<open>additionalProperties\<close> error at the sub-context
  of \<open>k\<close> when some pattern matching \<open>k\<close> validated the value of \<open>k\<close>, or when \<open>k\<close> is declared
  and no pattern matches it; otherwise it adds exactly one. (The keys of a Go map are
  distinct, and a \<open>range\<close> visits each key once: here the \<open>range\<close> over the keys of the
  object, and the \<open>range\<close> over the patterns in the round of \<open>k\<close>.)
\<close>

theorem additionalProperties_false_per_key:
  assumes "additionalProperties s = AdditionalBool False"
    and "distinct (map fst val)"
    and "distinct (map fst (patternProperties s))"
    and "mset (rangeKeys rt [RangeObject] (map fst val)) = mset (map fst val)"
    and "mset (rangeKeys rt [InKey k, RangePatterns] (map fst (patternProperties s)))
         = mset (map fst (patternProperties s))"
    and "k \<in> set (map fst val)"
  shows "length (filter (additionalPropertyErrorAt c k) (errors (validateObject rt s val r c)))
         = length (filter (additionalPropertyErrorAt c k) (errors r))
           + (if permitted rt s val c k then 0 else 1)"
proof -
  let ?P = "additionalPropertyErrorAt c k"
  have keys: "set (rangeKeys rt [InKey k, RangePatterns] (map fst (patternProperties s)))
              = set (map fst (patternProperties s))"
    using assms(5) by (rule mset_eq_setD)
  have "count (mset (rangeKeys rt [RangeObject] (map fst val))) k = count (mset (map fst val)) k"
    using assms(4) by simp
  then have once: "count_list (rangeKeys rt [RangeObject] (map fst val)) k = 1"
    using assms(2,6) by (simp add: count_mset distinct_count_atmost_1)
  have ne: "KEY_MIN_PROPERTIES \<noteq> KEY_ADDITIONAL_PROPERTIES"
    "KEY_MAX_PROPERTIES \<noteq> KEY_ADDITIONAL_PROPERTIES" "KEY_REQUIRED \<noteq> KEY_ADDITIONAL_PROPERTIES"
    by (simp_all add: KEY_defs)
  have r1: "filter ?P (errors (minPropertiesStage s val c x)) = filter ?P (errors x)" for x
    using ne by (simp add: minPropertiesStage_def additionalPropertyErrorAt_def split: option.splits)
  have r2: "filter ?P (errors (maxPropertiesStage s val c x)) = filter ?P (errors x)" for x
    using ne by (simp add: maxPropertiesStage_def additionalPropertyErrorAt_def split: option.splits)
  have r3: "filter ?P (errors (fold (requiredStep val c) ks x)) = filter ?P (errors x)" for ks x
    using ne
    by (induction ks arbitrary: x) (simp_all add: requiredStep_def additionalPropertyErrorAt_def)
  show ?thesis
    using assms(1) once
    by (simp add: validateObject_stages additionalPropertiesStage_def
          additionalFalse_fold_count[OF keys assms(3)] r1 r2 r3)
qed

lemma closedDeclaredPattern_not_permitted:
  "\<not> permitted goRuntime closedDeclaredPattern [(''a'', JBool True)] rootContext ''a''"
  by code_simp

theorem additionalProperties_false_per_key_witness:
  "additionalProperties closedDeclaredPattern = AdditionalBool False
   \<and> distinct (map fst [(''a'', JBool True)])
   \<and> distinct (map fst (patternProperties closedDeclaredPattern))
   \<and> mset (rangeKeys goRuntime [RangeObject] (map fst [(''a'', JBool True)]))
       = mset (map fst [(''a'', JBool True)])
   \<and> mset (rangeKeys goRuntime [InKey ''a'', RangePatterns]
              (map fst (patternProperties closedDeclaredPattern)))
       = mset (map fst (patternProperties closedDeclaredPattern))
   \<and> ''a'' \<in> set (map fst [(''a'', JBool True)])
   \<and> \<not> permitted goRuntime closedDeclaredPattern [(''a'', JBool True)] rootContext ''a''
   \<and> length (filter (additionalPropertyErrorAt rootContext ''a'')
               (errors (validateObject goRuntime closedDeclaredPattern [(''a'', JBool True)]
                          emptyResult rootContext))) = 1"
  using additionalProperties_false_per_key
          [where s = closedDeclaredPattern and val = "[(''a'', JBool True)]" and rt = goRuntime
             and k = "''a''" and c = rootContext and r = emptyResult]
    closedDeclaredPattern_not_permitted
  by (simp add: closedDeclaredPattern_def goRuntime_def)

text \<open>
  C5 as stated fails, in both directions. With \<open>additionalProperties\<close> false:
  \<^item> \<open>{"properties": {"a": {}}, "patternProperties": {"a": {"type": "string"}}}\<close> on
    \<open>{"a": true}\<close>: the key \<open>a\<close> is declared, and it receives an \<open>additionalProperties\<close>
    error, because a pattern matches it and none validates its value;
  \<^item> \<open>{"patternProperties": {"a": {}, "b": {"type": "string"}}}\<close> on \<open>{"ab": true}\<close>: the
    key \<open>ab\<close> is not declared and the matching pattern \<open>b\<close> rejects its value, and it
    receives no \<open>additionalProperties\<close> error, because the matching pattern \<open>a\<close> accepts it.
\<close>

theorem additionalProperties_declared_and_every_pattern_counterexample:
  "list_ex (\<lambda>sp. ''a'' = property sp) (propertiesChildren closedDeclaredPattern)
   \<and> length (filter (additionalPropertyErrorAt rootContext ''a'')
               (errors (Validate goRuntime closedDeclaredPattern (JObject [(''a'', JBool True)]))))
       = 1
   \<and> \<not> list_ex (\<lambda>sp. ''ab'' = property sp) (propertiesChildren closedTwoPatterns)
   \<and> regexpMatchString goRuntime ''b'' ''ab''
   \<and> map_of (patternProperties closedTwoPatterns) ''b'' = Some stringSchema
   \<and> \<not> Valid (subValidateWithContext goRuntime stringSchema (JBool True)
                 (newJsonContext ''ab'' (Some rootContext)))
   \<and> length (filter (additionalPropertyErrorAt rootContext ''ab'')
               (errors (Validate goRuntime closedTwoPatterns (JObject [(''ab'', JBool True)]))))
       = 0"
  by code_simp

section \<open>Two runs of the validator\<close>

lemma sameReport_refl [simp]: "sameReport a a"
  by (simp add: sameReport_def)

lemma sameReport_Valid: "sameReport a b \<Longrightarrow> Valid a = Valid b"
  by (auto simp add: sameReport_def dest: arg_cong[where f = size])

lemma sameReport_mergeErrors:
  "sameReport a b \<Longrightarrow> sameReport x y \<Longrightarrow> sameReport (mergeErrors a x) (mergeErrors b y)"
  by (simp add: sameReport_def)

lemma sameReport_addError:
  "sameReport a b \<Longrightarrow> sameReport (addError a c k q v) (addError b c k q v)"
  by (simp add: sameReport_def)

lemma sameReport_incrementScore:
  "sameReport a b \<Longrightarrow> sameReport (incrementScore a) (incrementScore b)"
  by (simp add: sameReport_def)

lemmas sameReport_intros = sameReport_mergeErrors sameReport_addError sameReport_incrementScore

lemma alikeD: "alike f g \<Longrightarrow> sameReport a b \<Longrightarrow> sameReport (f a) (g b)"
  by (simp add: alike_def)

lemma alike_same: "framed f \<Longrightarrow> alike f f"
proof -
  assume f: "framed f"
  have "sameReport (f a) (f b)" if "sameReport a b" for a b
  proof -
    have "f a = mergeErrors a (f emptyResult)" "f b = mergeErrors b (f emptyResult)"
      using framed_empty[OF f] by blast+
    then show ?thesis
      using that by (simp add: sameReport_def)
  qed
  then show ?thesis by (simp add: alike_def)
qed

lemma alike_framed:
  assumes "framed f" and "framed g" and "sameReport (f emptyResult) (g emptyResult)"
  shows "alike f g"
proof -
  have "sameReport (f a) (g b)" if "sameReport a b" for a b
  proof -
    have "f a = mergeErrors a (f emptyResult)" "g b = mergeErrors b (g emptyResult)"
      using framed_empty[OF assms(1)] framed_empty[OF assms(2)] by blast+
    then show ?thesis
      using that assms(3) by (simp add: sameReport_def)
  qed
  then show ?thesis by (simp add: alike_def)
qed

lemma alike_fold:
  assumes "\<And>a. a \<in> set xs \<Longrightarrow> alike (f a) (g a)"
  shows "alike (fold f xs) (fold g xs)"
  using assms
proof (induction xs)
  case Nil
  show ?case by (simp add: alike_def)
next
  case (Cons a xs)
  then have "alike (f a) (g a)" and "alike (fold f xs) (fold g xs)" by simp_all
  then show ?case by (simp add: alike_def)
qed

subsection \<open>Loops over the keys of a map\<close>

lemma fold_framed_score:
  assumes "\<And>a. framed (f a)"
  shows "score (fold f xs r) = score r + sum_list (map (\<lambda>a. score (f a emptyResult)) xs)"
proof (induction xs arbitrary: r)
  case Nil
  show ?case by simp
next
  case (Cons a xs)
  have "f a r = mergeErrors r (f a emptyResult)"
    using framed_empty[OF assms] .
  then have "score (f a r) = score r + score (f a emptyResult)"
    by (metis score_mergeErrors)
  then show ?case by (simp add: Cons)
qed

lemma fold_framed_errors:
  assumes "\<And>a. framed (f a)"
  shows "mset (errors (fold f xs r)) =
           mset (errors r) + sum_list (map (\<lambda>a. mset (errors (f a emptyResult))) xs)"
proof (induction xs arbitrary: r)
  case Nil
  show ?case by simp
next
  case (Cons a xs)
  have "f a r = mergeErrors r (f a emptyResult)"
    using framed_empty[OF assms] .
  then have "mset (errors (f a r)) = mset (errors r) + mset (errors (f a emptyResult))"
    by (metis errors_mergeErrors mset_append)
  then show ?case by (simp add: Cons)
qed

lemma sum_list_permuted:
  fixes h h' :: "'a \<Rightarrow> 'b::comm_monoid_add"
  assumes "mset xs = mset ys" and "\<And>a. a \<in> set xs \<Longrightarrow> h a = h' a"
  shows "sum_list (map h xs) = sum_list (map h' ys)"
proof -
  have "sum_list (map h xs) = sum_mset (image_mset h (mset xs))"
    by (metis mset_map sum_mset_sum_list)
  also have "\<dots> = sum_mset (image_mset h' (mset xs))"
    using assms(2) by (intro arg_cong[where f = sum_mset] image_mset_cong) simp
  also have "\<dots> = sum_list (map h' ys)"
    unfolding assms(1) by (metis mset_map sum_mset_sum_list)
  finally show ?thesis .
qed

text \<open>
  A loop whose rounds only append gives the same report whatever the order of its rounds.
\<close>

lemma alike_fold_permuted:
  assumes f: "\<And>a. framed (f a)" and g: "\<And>a. framed (g a)"
    and perm: "mset xs = mset ys"
    and same: "\<And>a. a \<in> set xs \<Longrightarrow> sameReport (f a emptyResult) (g a emptyResult)"
  shows "alike (fold f xs) (fold g ys)"
proof -
  have s: "sum_list (map (\<lambda>a. score (f a emptyResult)) xs)
           = sum_list (map (\<lambda>a. score (g a emptyResult)) ys)"
    using same by (intro sum_list_permuted perm) (simp add: sameReport_def)
  have e: "sum_list (map (\<lambda>a. mset (errors (f a emptyResult))) xs)
           = sum_list (map (\<lambda>a. mset (errors (g a emptyResult))) ys)"
    using same by (intro sum_list_permuted perm) (simp add: sameReport_def)
  show ?thesis
    unfolding alike_def sameReport_def
    by (simp add: fold_framed_score[of f, OF f] fold_framed_score[of g, OF g]
          fold_framed_errors[of f, OF f] fold_framed_errors[of g, OF g] s e)
qed

subsection \<open>The best result of two lists with the same reports\<close>

lemma getBestResult_alike:
  assumes "list_all2 sameReport rs1 rs2"
  shows "rel_option sameReport (getBestResult rs1) (getBestResult rs2)"
proof -
  have len: "length rs1 = length rs2"
    using assms by (rule list_all2_lengthD)
  have sc: "score (rs1 ! i) = score (rs2 ! i)" and sr: "sameReport (rs1 ! i) (rs2 ! i)"
    if "i < length rs1" for i
    using list_all2_nthD[OF assms that] by (simp_all add: sameReport_def)
  have forth: "\<exists>i<length rs1. rs1 ! i = b \<and> getBestResult rs2 = Some (rs2 ! i)"
    if "getBestResult rs1 = Some b" for b
  proof -
    from getBestResult_Some_strict_max[OF that] obtain i where
      i: "i < length rs1" "rs1 ! i = b" "\<forall>j<length rs1. j \<noteq> i \<longrightarrow> score (rs1 ! j) < score b"
      by blast
    have "length rs1 > 1"
      using that by (auto simp add: getBestResult_def split: if_splits)
    then have "getBestResult rs2 = Some (rs2 ! i)"
      using i sc len by (intro getBestResult_strict_max) auto
    with i show ?thesis by blast
  qed
  have backw: "\<exists>i<length rs1. getBestResult rs1 = Some (rs1 ! i)"
    if "getBestResult rs2 = Some b" for b
  proof -
    from getBestResult_Some_strict_max[OF that] obtain i where
      i: "i < length rs2" "rs2 ! i = b" "\<forall>j<length rs2. j \<noteq> i \<longrightarrow> score (rs2 ! j) < score b"
      by blast
    have "length rs2 > 1"
      using that by (auto simp add: getBestResult_def split: if_splits)
    then have "getBestResult rs1 = Some (rs1 ! i)"
      using i sc len by (intro getBestResult_strict_max) auto
    with i len show ?thesis by auto
  qed
  show ?thesis
  proof (cases "getBestResult rs1")
    case None
    then have "getBestResult rs2 = None"
      using backw by (cases "getBestResult rs2") auto
    with None show ?thesis by simp
  next
    case (Some b)
    from forth[OF Some] obtain i where
      "i < length rs1" "rs1 ! i = b" "getBestResult rs2 = Some (rs2 ! i)" by blast
    with Some sr[of i] show ?thesis by simp
  qed
qed

subsection \<open>The sites of two runs\<close>

lemma twoRuns_atSite: "twoRuns rt1 rt2 \<Longrightarrow> twoRuns (atSite rt1 x) (atSite rt2 y)"
  by (simp add: twoRuns_def sameLibrary_def visitsEachKeyOnce_def)

lemma twoRuns_range:
  "twoRuns rt1 rt2 \<Longrightarrow> mset (rangeKeys rt1 p ks) = mset (rangeKeys rt2 q ks)"
  by (simp add: twoRuns_def visitsEachKeyOnce_def)

lemma twoRuns_sameLibrary: "twoRuns rt1 rt2 \<Longrightarrow> sameLibrary rt1 rt2"
  by (simp add: twoRuns_def)

subsection \<open>Schema-level stages\<close>

lemma anyOf_fold_alike:
  assumes "\<And>i a. (i, a) \<in> set xs
             \<Longrightarrow> sameReport (subValidateWithContext (atSite rt1 (InAnyOf i)) a n c)
                   (subValidateWithContext (atSite rt2 (InAnyOf i)) a n c)"
    and "list_all2 sameReport rs1 rs2"
  shows "fst (fold (anyOfStep rt1 n c) xs (v, rs1)) = fst (fold (anyOfStep rt2 n c) xs (v, rs2))
         \<and> list_all2 sameReport (snd (fold (anyOfStep rt1 n c) xs (v, rs1)))
                                  (snd (fold (anyOfStep rt2 n c) xs (v, rs2)))"
  using assms
proof (induction xs arbitrary: v rs1 rs2)
  case Nil
  then show ?case by simp
next
  case (Cons ia xs)
  obtain i a where ia: "ia = (i, a)" by (cases ia)
  let ?x1 = "subValidateWithContext (atSite rt1 (InAnyOf i)) a n c"
  let ?x2 = "subValidateWithContext (atSite rt2 (InAnyOf i)) a n c"
  have a: "sameReport ?x1 ?x2"
    using Cons.prems(1)[of i a] by (simp add: ia)
  have rest: "\<And>j b. (j, b) \<in> set xs
      \<Longrightarrow> sameReport (subValidateWithContext (atSite rt1 (InAnyOf j)) b n c)
            (subValidateWithContext (atSite rt2 (InAnyOf j)) b n c)"
    using Cons.prems(1) by simp
  show ?case
  proof (cases v)
    case True
    then show ?thesis
      using Cons.IH[OF rest Cons.prems(2), of True] by (simp add: ia anyOfStep_def)
  next
    case False
    have "list_all2 sameReport (rs1 @ [?x1]) (rs2 @ [?x2])"
      using Cons.prems(2) a by (simp add: list_all2_appendI)
    from Cons.IH[OF rest this, of "Valid ?x1"]
    show ?thesis
      using False sameReport_Valid[OF a] by (simp add: ia anyOfStep_def Let_def)
  qed
qed

lemma alike_anyOfStage:
  assumes "\<And>i a. a \<in> set (anyOf s)
             \<Longrightarrow> sameReport (subValidateWithContext (atSite rt1 (InAnyOf i)) a n c)
                   (subValidateWithContext (atSite rt2 (InAnyOf i)) a n c)"
  shows "alike (anyOfStage rt1 s n c) (anyOfStage rt2 s n c)"
proof -
  let ?xs = "enumerate 0 (anyOf s)"
  obtain v1 rs1 where f1: "fold (anyOfStep rt1 n c) ?xs (False, []) = (v1, rs1)"
    by (cases "fold (anyOfStep rt1 n c) ?xs (False, [])")
  obtain v2 rs2 where f2: "fold (anyOfStep rt2 n c) ?xs (False, []) = (v2, rs2)"
    by (cases "fold (anyOfStep rt2 n c) ?xs (False, [])")
  have each: "sameReport (subValidateWithContext (atSite rt1 (InAnyOf i)) a n c)
                (subValidateWithContext (atSite rt2 (InAnyOf i)) a n c)"
    if "(i, a) \<in> set ?xs" for i a
    using that by (intro assms) (rule in_set_enumerate_snd)
  have "v1 = v2" and "list_all2 sameReport rs1 rs2"
    using anyOf_fold_alike[of ?xs rt1 n c rt2 "[]" "[]" False, OF each] f1 f2 by simp_all
  then have v: "v1 = v2" and best: "rel_option sameReport (getBestResult rs1) (getBestResult rs2)"
    by (simp_all add: getBestResult_alike)
  show ?thesis
    unfolding alike_def anyOfStage_def f1 f2 Let_def
    using v best
    by (cases "getBestResult rs1"; cases "getBestResult rs2")
       (auto intro: sameReport_intros)
qed

lemma oneOf_fold_alike:
  assumes "\<And>i a. (i, a) \<in> set xs
             \<Longrightarrow> sameReport (subValidateWithContext (atSite rt1 (InOneOf i)) a n c)
                   (subValidateWithContext (atSite rt2 (InOneOf i)) a n c)"
    and "list_all2 sameReport rs1 rs2"
  shows "snd (fold (oneOfStep rt1 n c) xs (rs1, k)) = snd (fold (oneOfStep rt2 n c) xs (rs2, k))
         \<and> list_all2 sameReport (fst (fold (oneOfStep rt1 n c) xs (rs1, k)))
                                  (fst (fold (oneOfStep rt2 n c) xs (rs2, k)))"
  using assms
proof (induction xs arbitrary: k rs1 rs2)
  case Nil
  then show ?case by simp
next
  case (Cons ia xs)
  obtain i a where ia: "ia = (i, a)" by (cases ia)
  let ?x1 = "subValidateWithContext (atSite rt1 (InOneOf i)) a n c"
  let ?x2 = "subValidateWithContext (atSite rt2 (InOneOf i)) a n c"
  have a: "sameReport ?x1 ?x2"
    using Cons.prems(1)[of i a] by (simp add: ia)
  have rest: "\<And>j b. (j, b) \<in> set xs
      \<Longrightarrow> sameReport (subValidateWithContext (atSite rt1 (InOneOf j)) b n c)
            (subValidateWithContext (atSite rt2 (InOneOf j)) b n c)"
    using Cons.prems(1) by simp
  show ?case
  proof (cases "Valid ?x1")
    case True
    then show ?thesis
      using Cons.IH[OF rest Cons.prems(2), of "k + 1"] sameReport_Valid[OF a]
      by (simp add: ia oneOfStep_def Let_def)
  next
    case False
    have "list_all2 sameReport (rs1 @ [?x1]) (rs2 @ [?x2])"
      using Cons.prems(2) a by (simp add: list_all2_appendI)
    from Cons.IH[OF rest this, of k]
    show ?thesis
      using False sameReport_Valid[OF a] by (simp add: ia oneOfStep_def Let_def)
  qed
qed

lemma alike_oneOfStage:
  assumes "\<And>i a. a \<in> set (oneOf s)
             \<Longrightarrow> sameReport (subValidateWithContext (atSite rt1 (InOneOf i)) a n c)
                   (subValidateWithContext (atSite rt2 (InOneOf i)) a n c)"
  shows "alike (oneOfStage rt1 s n c) (oneOfStage rt2 s n c)"
proof -
  let ?xs = "enumerate 0 (oneOf s)"
  obtain rs1 k1 where f1: "fold (oneOfStep rt1 n c) ?xs ([], 0) = (rs1, k1)"
    by (cases "fold (oneOfStep rt1 n c) ?xs ([], 0)")
  obtain rs2 k2 where f2: "fold (oneOfStep rt2 n c) ?xs ([], 0) = (rs2, k2)"
    by (cases "fold (oneOfStep rt2 n c) ?xs ([], 0)")
  have each: "sameReport (subValidateWithContext (atSite rt1 (InOneOf i)) a n c)
                (subValidateWithContext (atSite rt2 (InOneOf i)) a n c)"
    if "(i, a) \<in> set ?xs" for i a
    using that by (intro assms) (rule in_set_enumerate_snd)
  have "k1 = k2" and "list_all2 sameReport rs1 rs2"
    using oneOf_fold_alike[of ?xs rt1 n c rt2 "[]" "[]" 0, OF each] f1 f2 by simp_all
  then have k: "k1 = k2" and best: "rel_option sameReport (getBestResult rs1) (getBestResult rs2)"
    by (simp_all add: getBestResult_alike)
  show ?thesis
    unfolding alike_def oneOfStage_def f1 f2 Let_def
    using k best
    by (cases "getBestResult rs1"; cases "getBestResult rs2")
       (auto intro: sameReport_intros)
qed

lemma allOf_fold_alike:
  assumes "\<And>i a. (i, a) \<in> set xs
             \<Longrightarrow> sameReport (subValidateWithContext (atSite rt1 (InAllOf i)) a n c)
                   (subValidateWithContext (atSite rt2 (InAllOf i)) a n c)"
    and "sameReport r1 r2"
  shows "fst (fold (allOfStep rt1 n c) xs (k, r1)) = fst (fold (allOfStep rt2 n c) xs (k, r2))
         \<and> sameReport (snd (fold (allOfStep rt1 n c) xs (k, r1)))
                        (snd (fold (allOfStep rt2 n c) xs (k, r2)))"
  using assms
proof (induction xs arbitrary: k r1 r2)
  case Nil
  then show ?case by simp
next
  case (Cons ia xs)
  obtain i a where ia: "ia = (i, a)" by (cases ia)
  let ?x1 = "subValidateWithContext (atSite rt1 (InAllOf i)) a n c"
  let ?x2 = "subValidateWithContext (atSite rt2 (InAllOf i)) a n c"
  have a: "sameReport ?x1 ?x2"
    using Cons.prems(1)[of i a] by (simp add: ia)
  have rest: "\<And>j b. (j, b) \<in> set xs
      \<Longrightarrow> sameReport (subValidateWithContext (atSite rt1 (InAllOf j)) b n c)
            (subValidateWithContext (atSite rt2 (InAllOf j)) b n c)"
    using Cons.prems(1) by simp
  have "sameReport (mergeErrors r1 ?x1) (mergeErrors r2 ?x2)"
    using Cons.prems(2) a by (rule sameReport_mergeErrors)
  from Cons.IH[OF rest this]
  show ?case
    using sameReport_Valid[OF a] by (simp add: ia allOfStep_def Let_def)
qed

lemma alike_allOfStage:
  assumes "\<And>i a. a \<in> set (allOf s)
             \<Longrightarrow> sameReport (subValidateWithContext (atSite rt1 (InAllOf i)) a n c)
                   (subValidateWithContext (atSite rt2 (InAllOf i)) a n c)"
  shows "alike (allOfStage rt1 s n c) (allOfStage rt2 s n c)"
proof -
  let ?xs = "enumerate 0 (allOf s)"
  have each: "sameReport (subValidateWithContext (atSite rt1 (InAllOf i)) a n c)
                (subValidateWithContext (atSite rt2 (InAllOf i)) a n c)"
    if "(i, a) \<in> set ?xs" for i a
    using that by (intro assms) (rule in_set_enumerate_snd)
  have "sameReport (allOfStage rt1 s n c a) (allOfStage rt2 s n c b)" if ab: "sameReport a b"
    for a b
  proof -
    obtain k1 x1 where f1: "fold (allOfStep rt1 n c) ?xs (0, a) = (k1, x1)"
      by (cases "fold (allOfStep rt1 n c) ?xs (0, a)")
    obtain k2 x2 where f2: "fold (allOfStep rt2 n c) ?xs (0, b) = (k2, x2)"
      by (cases "fold (allOfStep rt2 n c) ?xs (0, b)")
    have "k1 = k2" and "sameReport x1 x2"
      using allOf_fold_alike[of ?xs rt1 n c rt2 a b 0, OF each ab] f1 f2 by simp_all
    then show ?thesis
      using ab by (auto simp add: allOfStage_def f1 f2 Let_def intro: sameReport_intros)
  qed
  then show ?thesis by (simp add: alike_def)
qed

lemma alike_notStage:
  assumes "\<And>a. not s = Some a
             \<Longrightarrow> sameReport (subValidateWithContext (atSite rt1 InNot) a n c)
                   (subValidateWithContext (atSite rt2 InNot) a n c)"
  shows "alike (notStage rt1 s n c) (notStage rt2 s n c)"
proof (cases "not s")
  case None
  then show ?thesis by (simp add: alike_def notStage_def)
next
  case (Some a)
  then show ?thesis
    using sameReport_Valid[OF assms[OF Some]]
    by (auto simp add: alike_def notStage_def Let_def intro: sameReport_intros)
qed

lemma framed_dependencyStep': "framed (dependencyStep rt s n m c k)"
  by (intro framed_dependencyStep framed_validateRecursive)

lemma dependencyStep_alike:
  assumes "\<And>d. map_of (dependencies s) k = Some (DependOnSchema d)
             \<Longrightarrow> sameReport (subValidateWithContext (atSite rt1 (InDependency k)) d n c)
                   (subValidateWithContext (atSite rt2 (InDependency k)) d n c)"
  shows "sameReport (dependencyStep rt1 s n m c k emptyResult)
           (dependencyStep rt2 s n m c k emptyResult)"
proof (cases "map_of (dependencies s) k")
  case None
  then show ?thesis by (simp add: dependencyStep_def)
next
  case (Some dep)
  then show ?thesis
    using assms
    by (cases dep) (simp_all add: dependencyStep_def subValidateWithContext_eq)
qed

lemma alike_dependenciesStage:
  assumes "\<And>k d. map_of (dependencies s) k = Some (DependOnSchema d)
             \<Longrightarrow> sameReport (subValidateWithContext (atSite rt1 (InDependency k)) d n c)
                   (subValidateWithContext (atSite rt2 (InDependency k)) d n c)"
    and "twoRuns rt1 rt2"
  shows "alike (dependenciesStage rt1 s n c) (dependenciesStage rt2 s n c)"
proof -
  have "alike (fold (dependencyStep rt1 s n m c) (rangeKeys rt1 [RangeDependencies] (map fst m)))
          (fold (dependencyStep rt2 s n m c) (rangeKeys rt2 [RangeDependencies] (map fst m)))"
    for m
    by (intro alike_fold_permuted framed_dependencyStep' dependencyStep_alike assms(1)
          twoRuns_range[OF assms(2)])
  then show ?thesis
    by (cases n) (simp_all add: dependenciesStage_def alike_def)
qed

lemma alike_validateSchema:
  assumes runs: "twoRuns rt1 rt2"
    and ch: "\<And>rt1' rt2' a. a \<in> children s \<Longrightarrow> twoRuns rt1' rt2'
             \<Longrightarrow> sameReport (subValidateWithContext rt1' a n c) (subValidateWithContext rt2' a n c)"
  shows "alike (\<lambda>r. validateSchema rt1 s n r c) (\<lambda>r. validateSchema rt2 s n r c)"
proof -
  note sub = ch[OF _ twoRuns_atSite[OF runs]]
  have "alike (anyOfStage rt1 s n c) (anyOfStage rt2 s n c)"
    by (intro alike_anyOfStage sub) (simp add: children_def)
  moreover have "alike (oneOfStage rt1 s n c) (oneOfStage rt2 s n c)"
    by (intro alike_oneOfStage sub) (simp add: children_def)
  moreover have "alike (allOfStage rt1 s n c) (allOfStage rt2 s n c)"
    by (intro alike_allOfStage sub) (simp add: children_def)
  moreover have "alike (notStage rt1 s n c) (notStage rt2 s n c)"
    by (intro alike_notStage sub) (simp add: children_def)
  moreover have "alike (dependenciesStage rt1 s n c) (dependenciesStage rt2 s n c)"
    by (intro alike_dependenciesStage sub runs) (auto simp add: children_def)
  ultimately show ?thesis
    by (simp add: validateSchema_stages alike_def sameReport_incrementScore)
qed

subsection \<open>Arrays\<close>

lemma alike_itemStep:
  assumes "sameReport
      (subValidateWithContext (atSite rt1 (InItem i)) (sch i) (val ! i)
         (newJsonContext (Itoa i) (Some c)))
      (subValidateWithContext (atSite rt2 (InItem i)) (sch i) (val ! i)
         (newJsonContext (Itoa i) (Some c)))"
  shows "alike (itemStep rt1 sch val c i) (itemStep rt2 sch val c i)"
  using assms by (simp add: alike_def itemStep_def Let_def sameReport_mergeErrors)

lemma alike_itemsStage:
  assumes runs: "twoRuns rt1 rt2"
    and ch: "\<And>rt1' rt2' a n c'.
               a \<in> set (itemsChildren s) \<or> additionalItems s = AdditionalSchema a
               \<Longrightarrow> twoRuns rt1' rt2'
               \<Longrightarrow> sameReport (subValidateWithContext rt1' a n c')
                     (subValidateWithContext rt2' a n c')"
  shows "alike (itemsStage rt1 s val c) (itemsStage rt2 s val c)"
proof -
  note sub = ch[OF _ twoRuns_atSite[OF runs]]
  have single: "alike (fold (itemStep rt1 (\<lambda>i. a) val c) is) (fold (itemStep rt2 (\<lambda>i. a) val c) is)"
    if "a \<in> set (itemsChildren s) \<or> additionalItems s = AdditionalSchema a" for a "is"
    by (intro alike_fold alike_itemStep sub that)
  have tuple: "alike (fold (itemStep rt1 (\<lambda>i. itemsChildren s ! i) val c) [0..<k])
                 (fold (itemStep rt2 (\<lambda>i. itemsChildren s ! i) val c) [0..<k])"
    if "k = length (itemsChildren s)" for k
    using that by (intro alike_fold alike_itemStep sub) simp
  have "sameReport (itemsStage rt1 s val c x) (itemsStage rt2 s val c y)" if xy: "sameReport x y"
    for x y
  proof (cases "itemsChildrenIsSingleSchema s")
    case True
    then show ?thesis
      using alikeD[OF single xy] xy
      by (cases "itemsChildren s") (simp_all add: itemsStage_def)
  next
    case False
    note mixed = False
    show ?thesis
    proof (cases "length (itemsChildren s) = length val")
      case True
      then show ?thesis
        using mixed alikeD[OF tuple xy, of "length val"] xy
        by (simp add: itemsStage_def Let_def)
    next
      case False
      then show ?thesis
        using mixed alikeD[OF single xy] xy
        by (cases "additionalItems s")
           (simp_all add: itemsStage_def Let_def sameReport_addError)
    qed
  qed
  then show ?thesis by (simp add: alike_def)
qed

lemma uniqueItemsStage_sameLibrary:
  "sameLibrary rt1 rt2 \<Longrightarrow> uniqueItemsStage rt1 s val c = uniqueItemsStage rt2 s val c"
  by (simp add: uniqueItemsStage_def uniqueStep_def sameLibrary_def fun_eq_iff)

lemma alike_validateArray:
  assumes runs: "twoRuns rt1 rt2"
    and ch: "\<And>rt1' rt2' a n c'. a \<in> children s \<Longrightarrow> twoRuns rt1' rt2'
             \<Longrightarrow> sameReport (subValidateWithContext rt1' a n c')
                   (subValidateWithContext rt2' a n c')"
  shows "alike (\<lambda>r. validateArray rt1 s val r c) (\<lambda>r. validateArray rt2 s val r c)"
proof -
  have "alike (itemsStage rt1 s val c) (itemsStage rt2 s val c)"
    by (intro alike_itemsStage runs ch) (auto simp add: children_def)
  moreover have "alike (minItemsStage s k val c) (minItemsStage s k val c)" for k
    by (intro alike_same framed_minItemsStage)
  moreover have "alike (maxItemsStage s k val c) (maxItemsStage s k val c)" for k
    by (intro alike_same framed_maxItemsStage)
  moreover have "alike (uniqueItemsStage rt1 s val c) (uniqueItemsStage rt2 s val c)"
    using alike_same[OF framed_uniqueItemsStage[of rt1 s val c]]
    by (simp add: uniqueItemsStage_sameLibrary[OF twoRuns_sameLibrary[OF runs], symmetric])
  ultimately show ?thesis
    by (simp add: validateArray_stages alike_def sameReport_incrementScore)
qed

subsection \<open>Objects\<close>

lemma validatePatternProperty_alike:
  assumes runs: "twoRuns rt1 rt2"
    and pats: "\<And>rt1' rt2' pk pv. map_of (patternProperties s) pk = Some pv
        \<Longrightarrow> twoRuns rt1' rt2'
        \<Longrightarrow> sameReport (subValidateWithContext rt1' pv val (newJsonContext key (Some c)))
              (subValidateWithContext rt2' pv val (newJsonContext key (Some c)))"
    and ab: "sameReport a b"
  shows "fst (validatePatternProperty rt1 s key val a c)
           = fst (validatePatternProperty rt2 s key val b c)
         \<and> sameReport (snd (validatePatternProperty rt1 s key val a c))
                        (snd (validatePatternProperty rt2 s key val b c))"
proof -
  let ?k1 = "rangeKeys rt1 [RangePatterns] (map fst (patternProperties s))"
  let ?k2 = "rangeKeys rt2 [RangePatterns] (map fst (patternProperties s))"
  have lib: "regexpMatchString rt1 = regexpMatchString rt2"
    using runs by (simp add: twoRuns_def sameLibrary_def)
  have perm: "mset ?k1 = mset ?k2"
    by (rule twoRuns_range[OF runs])
  then have st: "set ?k1 = set ?k2"
    by (rule mset_eq_setD)
  have m: "patternMatches rt1 s key pk = patternMatches rt2 s key pk" for pk
    using lib by (simp add: patternMatches_def split: option.splits)
  have pr: "sameReport (patternResult rt1 s key val c pk) (patternResult rt2 s key val c pk)" for pk
    using lib pats[OF _ twoRuns_atSite[OF runs]]
    by (simp add: patternResult_def split: option.splits)
  have pv: "patternValidates rt1 s key val c pk = patternValidates rt2 s key val c pk" for pk
    using m sameReport_Valid[OF pr] by (simp add: patternValidates_def)
  have h: "list_ex (patternMatches rt1 s key) ?k1 = list_ex (patternMatches rt2 s key) ?k2"
    using st m by (simp add: list_ex_iff)
  have v: "list_ex (patternValidates rt1 s key val c) ?k1
           = list_ex (patternValidates rt2 s key val c) ?k2"
    using st pv by (simp add: list_ex_iff)
  have "alike (fold (\<lambda>pk r. mergeErrors r (patternResult rt1 s key val c pk)) ?k1)
          (fold (\<lambda>pk r. mergeErrors r (patternResult rt2 s key val c pk)) ?k2)"
    by (intro alike_fold_permuted framed_mergeErrors perm) (simp add: pr)
  from alikeD[OF this ab] show ?thesis
    unfolding validatePatternProperty_closed using h v
    by (simp add: sameReport_incrementScore)
qed

lemma additionalSteps_alike:
  assumes runs: "twoRuns rt1 rt2"
    and pats: "\<And>rt1' rt2' pk pv n c'. map_of (patternProperties s) pk = Some pv
        \<Longrightarrow> twoRuns rt1' rt2'
        \<Longrightarrow> sameReport (subValidateWithContext rt1' pv n c') (subValidateWithContext rt2' pv n c')"
  shows "sameReport (additionalFalseStep rt1 s val c k emptyResult)
           (additionalFalseStep rt2 s val c k emptyResult)"
    and "sameReport (additionalNilStep rt1 s val c k emptyResult)
           (additionalNilStep rt2 s val c k emptyResult)"
    and "(\<And>rt1' rt2' n c'. twoRuns rt1' rt2'
           \<Longrightarrow> sameReport (subValidateWithContext rt1' a n c')
                 (subValidateWithContext rt2' a n c'))
         \<Longrightarrow> sameReport (additionalSchemaStep rt1 s a val c k emptyResult)
               (additionalSchemaStep rt2 s a val c k emptyResult)"
proof -
  let ?rt1 = "atSite rt1 (InKey k)" and ?rt2 = "atSite rt2 (InKey k)"
  obtain h1 m1 r1 where p1:
    "validatePatternProperty ?rt1 s k (mapIndex val k) emptyResult c = ((h1, m1), r1)"
    by (cases "validatePatternProperty ?rt1 s k (mapIndex val k) emptyResult c") auto
  obtain h2 m2 r2 where p2:
    "validatePatternProperty ?rt2 s k (mapIndex val k) emptyResult c = ((h2, m2), r2)"
    by (cases "validatePatternProperty ?rt2 s k (mapIndex val k) emptyResult c") auto
  have runs': "twoRuns ?rt1 ?rt2"
    by (rule twoRuns_atSite[OF runs])
  have pats': "sameReport
      (subValidateWithContext rt1' pv (mapIndex val k) (newJsonContext k (Some c)))
      (subValidateWithContext rt2' pv (mapIndex val k) (newJsonContext k (Some c)))"
    if "map_of (patternProperties s) pk = Some pv" and "twoRuns rt1' rt2'" for rt1' rt2' pk pv
    using that by (rule pats)
  have "fst (validatePatternProperty ?rt1 s k (mapIndex val k) emptyResult c)
          = fst (validatePatternProperty ?rt2 s k (mapIndex val k) emptyResult c)
        \<and> sameReport (snd (validatePatternProperty ?rt1 s k (mapIndex val k) emptyResult c))
                       (snd (validatePatternProperty ?rt2 s k (mapIndex val k) emptyResult c))"
    using runs' pats' sameReport_refl by (rule validatePatternProperty_alike)
  then have eq: "h1 = h2" "m1 = m2" and r: "sameReport r1 r2"
    by (simp_all add: p1 p2)
  show "sameReport (additionalFalseStep rt1 s val c k emptyResult)
          (additionalFalseStep rt2 s val c k emptyResult)"
    using eq r by (simp add: additionalFalseStep_def p1 p2 Let_def sameReport_addError)
  show "sameReport (additionalNilStep rt1 s val c k emptyResult)
          (additionalNilStep rt2 s val c k emptyResult)"
    using eq r by (simp add: additionalNilStep_def p1 p2 Let_def sameReport_addError)
  show "sameReport (additionalSchemaStep rt1 s a val c k emptyResult)
          (additionalSchemaStep rt2 s a val c k emptyResult)"
    if "\<And>rt1' rt2' n c'. twoRuns rt1' rt2'
           \<Longrightarrow> sameReport (subValidateWithContext rt1' a n c')
                 (subValidateWithContext rt2' a n c')"
    using eq r that[OF twoRuns_atSite[OF runs]]
    by (simp add: additionalSchemaStep_def p1 p2 Let_def sameReport_mergeErrors)
qed

lemma alike_additionalPropertiesStage:
  assumes runs: "twoRuns rt1 rt2"
    and ch: "\<And>rt1' rt2' a n c'. a \<in> children s \<Longrightarrow> twoRuns rt1' rt2'
             \<Longrightarrow> sameReport (subValidateWithContext rt1' a n c')
                   (subValidateWithContext rt2' a n c')"
  shows "alike (additionalPropertiesStage rt1 s val c) (additionalPropertiesStage rt2 s val c)"
proof -
  let ?k1 = "rangeKeys rt1 [RangeObject] (map fst val)"
  let ?k2 = "rangeKeys rt2 [RangeObject] (map fst val)"
  have perm: "mset ?k1 = mset ?k2"
    by (rule twoRuns_range[OF runs])
  have pats: "sameReport (subValidateWithContext rt1' pv n c') (subValidateWithContext rt2' pv n c')"
    if "map_of (patternProperties s) pk = Some pv" and "twoRuns rt1' rt2'"
    for rt1' rt2' pk pv n c'
    using that by (intro ch) (auto simp add: children_def)
  note steps = additionalSteps_alike[where s = s, OF runs pats]
  have f: "alike (fold (additionalFalseStep rt1 s val c) ?k1)
             (fold (additionalFalseStep rt2 s val c) ?k2)"
    by (intro alike_fold_permuted framed_additionalFalseStep perm steps(1))
  have n: "alike (fold (additionalNilStep rt1 s val c) ?k1)
             (fold (additionalNilStep rt2 s val c) ?k2)"
    by (intro alike_fold_permuted framed_additionalNilStep perm steps(2))
  have a: "alike (fold (additionalSchemaStep rt1 s a val c) ?k1)
             (fold (additionalSchemaStep rt2 s a val c) ?k2)"
    if "additionalProperties s = AdditionalSchema a" for a
  proof -
    have "sameReport (subValidateWithContext rt1' a n c') (subValidateWithContext rt2' a n c')"
      if "twoRuns rt1' rt2'" for rt1' rt2' n c'
      using \<open>additionalProperties s = AdditionalSchema a\<close> that
      by (intro ch) (simp_all add: children_def)
    then show ?thesis
      by (intro alike_fold_permuted framed_additionalSchemaStep perm steps(3))
  qed
  show ?thesis
    using f n a
    by (cases "additionalProperties s") (simp_all add: additionalPropertiesStage_def alike_def)
qed

lemma alike_validateObject:
  assumes runs: "twoRuns rt1 rt2"
    and ch: "\<And>rt1' rt2' a n c'. a \<in> children s \<Longrightarrow> twoRuns rt1' rt2'
             \<Longrightarrow> sameReport (subValidateWithContext rt1' a n c')
                   (subValidateWithContext rt2' a n c')"
  shows "alike (\<lambda>r. validateObject rt1 s val r c) (\<lambda>r. validateObject rt2 s val r c)"
proof -
  have "framed (minPropertiesStage s val c)" "framed (maxPropertiesStage s val c)"
    by (simp_all add: framed_def minPropertiesStage_def maxPropertiesStage_def frame_simps
          split: option.splits)
  then have "alike (minPropertiesStage s val c) (minPropertiesStage s val c)"
    and "alike (maxPropertiesStage s val c) (maxPropertiesStage s val c)"
    by (simp_all add: alike_same)
  moreover have "alike (fold (requiredStep val c) (required s)) (fold (requiredStep val c) (required s))"
    by (intro alike_same framed_fold framed_requiredStep)
  moreover note alike_additionalPropertiesStage[where s = s and val = val and c = c, OF runs ch]
  ultimately show ?thesis
    by (simp add: validateObject_stages alike_def sameReport_incrementScore)
qed

subsection \<open>The walker\<close>

lemma alike_propertiesStep:
  assumes "\<And>n c'. sameReport
             (subValidateWithContext (atSite rt1 (InProperty i)) p n c')
             (subValidateWithContext (atSite rt2 (InProperty i)) p n c')"
  shows "alike (propertiesStep rt1 m c (i, p)) (propertiesStep rt2 m c (i, p))"
  using assms
  by (simp add: alike_def propertiesStep_def validateRecursive_merge sameReport_mergeErrors
        split: option.splits)

lemma validateCommon_sameLibrary:
  "sameLibrary rt1 rt2 \<Longrightarrow> validateCommon rt1 s n r c = validateCommon rt2 s n r c"
  by (simp add: validateCommon_def ContainsEnum_def sameLibrary_def)

lemma validateString_sameLibrary:
  "sameLibrary rt1 rt2 \<Longrightarrow> validateString rt1 s n r c = validateString rt2 s n r c"
  by (simp add: validateString_def sameLibrary_def Let_def split: json.splits option.splits)

lemma alike_assertions:
  assumes runs: "twoRuns rt1 rt2"
    and ch: "\<And>rt1' rt2' a n c'. a \<in> children s \<Longrightarrow> twoRuns rt1' rt2'
             \<Longrightarrow> sameReport (subValidateWithContext rt1' a n c')
                   (subValidateWithContext rt2' a n c')"
  shows "alike (assertions rt1 s n c) (assertions rt2 s n c)"
proof -
  note lib = twoRuns_sameLibrary[OF runs]
  have sch: "alike (\<lambda>r. validateSchema rt1 s n' r c) (\<lambda>r. validateSchema rt2 s n' r c)" for n'
    by (intro alike_validateSchema runs ch)
  have arr: "alike (\<lambda>r. validateArray rt1 s xs r c) (\<lambda>r. validateArray rt2 s xs r c)" for xs
    by (intro alike_validateArray runs ch)
  have obj: "alike (\<lambda>r. validateObject rt1 s m r c) (\<lambda>r. validateObject rt2 s m r c)" for m
    by (intro alike_validateObject runs ch)
  have "alike (propertiesStep rt1 m c ip) (propertiesStep rt2 m c ip)"
    if "ip \<in> set (enumerate 0 (propertiesChildren s))" for m ip
  proof -
    obtain i p where ip: "ip = (i, p)" by (cases ip)
    then have "p \<in> children s"
      using that by (auto simp add: children_def dest: in_set_enumerate_snd)
    then show ?thesis
      unfolding ip by (intro alike_propertiesStep ch twoRuns_atSite[OF runs])
  qed
  then have prp: "alike (fold (propertiesStep rt1 m c) (enumerate 0 (propertiesChildren s)))
                    (fold (propertiesStep rt2 m c) (enumerate 0 (propertiesChildren s)))" for m
    by (intro alike_fold)
  have com: "alike (\<lambda>r. validateCommon rt1 s n' r c) (\<lambda>r. validateCommon rt2 s n' r c)" for n'
    using alike_same[OF framed_validateCommon[of rt1 s n' c]]
    by (simp add: validateCommon_sameLibrary[OF lib, symmetric])
  have str: "alike (\<lambda>r. validateString rt1 s n' r c) (\<lambda>r. validateString rt2 s n' r c)" for n'
    using alike_same[OF framed_validateString[of rt1 s n' c]]
    by (simp add: validateString_sameLibrary[OF lib, symmetric])
  have num: "alike (\<lambda>r. validateNumber s n' r c) (\<lambda>r. validateNumber s n' r c)" for n'
    by (intro alike_same framed_validateNumber)
  note k = alikeD[OF sch] alikeD[OF arr] alikeD[OF obj] alikeD[OF prp] alikeD[OF com]
    alikeD[OF str] alikeD[OF num]
  show ?thesis
    by (cases n) (simp_all add: alike_def assertions_def k)
qed

text \<open>
  Two runs that differ only in the orders in which their executions of \<open>range\<close> visit the
  keys of the maps give the same report: the same score and the same errors up to their
  order.
\<close>

lemma subValidateWithContext_sameReport:
  assumes "twoRuns rt1 rt2"
  shows "sameReport (subValidateWithContext rt1 s n c) (subValidateWithContext rt2 s n c)"
  using assms
proof (induction s arbitrary: rt1 rt2 n c rule: measure_induct_rule[of size])
  case (less s)
  show ?case
  proof (cases "refSchema s")
    case (Some ref)
    then show ?thesis
      using less.IH[OF size_refSchema[OF Some] less.prems]
      by (simp add: subValidateWithContext_eq validateRecursive_ref)
  next
    case None
    have "alike (assertions rt1 s n c) (assertions rt2 s n c)"
      by (intro alike_assertions less.prems less.IH size_children)
    from alikeD[OF this, of emptyResult emptyResult] show ?thesis
      by (simp add: subValidateWithContext_eq validateRecursive_node[OF None]
            sameReport_addError sameReport_incrementScore)
  qed
qed

lemma sameReport_reportMap:
  "sameReport a b \<Longrightarrow> mset (reportMap a loc) = mset (reportMap b loc)"
  by (simp add: sameReport_def reportMap_def)

section \<open>Validation up to the order of the errors\<close>

lemma sameLibrary_goRuntimeRev: "sameLibrary goRuntime goRuntimeRev"
  by (simp add: sameLibrary_def goRuntimeRev_def)

lemma sameLibrary_goRuntimeMixed: "sameLibrary goRuntime goRuntimeMixed"
  by (simp add: sameLibrary_def goRuntimeMixed_def)

lemma visitsEachKeyOnce_goRuntime: "visitsEachKeyOnce goRuntime"
  by (simp add: visitsEachKeyOnce_def goRuntime_def)

lemma visitsEachKeyOnce_goRuntimeRev: "visitsEachKeyOnce goRuntimeRev"
  by (simp add: visitsEachKeyOnce_def goRuntimeRev_def)

lemma visitsEachKeyOnce_goRuntimeMixed: "visitsEachKeyOnce goRuntimeMixed"
  by (simp add: visitsEachKeyOnce_def goRuntimeMixed_def)

text \<open>
  A run whose loops follow different orders: on \<open>{"ab": true, "ba": true}\<close> the patterns
  are visited in list order in the round of \<open>ab\<close> and in the reverse order in the round of
  \<open>ba\<close>.
\<close>

lemma goRuntimeMixed_type_errors:
  "map (\<lambda>e. (head (Context e), Requirement e))
     (filter (\<lambda>e. Attribute e = KEY_TYPE)
        (errors (Validate goRuntimeMixed stringAndNumberPatterns
                   (JObject [(''ab'', JBool True), (''ba'', JBool True)]))))
   = [(''ab'', ReqTypes [TYPE_STRING]), (''ab'', ReqTypes [TYPE_NUMBER]),
      (''ba'', ReqTypes [TYPE_NUMBER]), (''ba'', ReqTypes [TYPE_STRING])]"
  by code_simp

text \<open>
  C4, as the code has it. A run of the validator is a runtime: it fixes, for each execution
  of a \<open>range\<close> in the run, the order in which that execution visits the keys of its map.
  Two runs on the same schema and document, whatever the orders of their loops, give the
  same score, the same verdict, and at every location of the report the same stacks up to
  their order. The statement speaks of what the report reads (keyword and requirement at
  each location); the description text of an error is not part of it.
\<close>

theorem validation_same_up_to_error_order:
  assumes "sameLibrary rt1 rt2" and "visitsEachKeyOnce rt1" and "visitsEachKeyOnce rt2"
  shows "score (Validate rt1 s d) = score (Validate rt2 s d)
         \<and> Valid (Validate rt1 s d) = Valid (Validate rt2 s d)
         \<and> mset (reportMap (Validate rt1 s d) loc) = mset (reportMap (Validate rt2 s d) loc)"
proof -
  have "twoRuns rt1 rt2"
    using assms by (simp add: twoRuns_def)
  then have "sameReport (subValidateWithContext rt1 s d (newJsonContext STRING_CONTEXT_ROOT None))
               (subValidateWithContext rt2 s d (newJsonContext STRING_CONTEXT_ROOT None))"
    by (rule subValidateWithContext_sameReport)
  then have same: "sameReport (Validate rt1 s d) (Validate rt2 s d)"
    by (simp add: Validate_def subValidateWithContext_eq)
  have "score (Validate rt1 s d) = score (Validate rt2 s d)"
    using same unfolding sameReport_def by blast
  moreover have "Valid (Validate rt1 s d) = Valid (Validate rt2 s d)"
    using same by (rule sameReport_Valid)
  moreover have "mset (reportMap (Validate rt1 s d) loc) = mset (reportMap (Validate rt2 s d) loc)"
    using same by (rule sameReport_reportMap)
  ultimately show ?thesis by blast
qed

theorem validation_same_up_to_error_order_witness:
  "sameLibrary goRuntime goRuntimeMixed
   \<and> visitsEachKeyOnce goRuntime
   \<and> visitsEachKeyOnce goRuntimeMixed
   \<and> score (Validate goRuntime stringAndNumberPatterns
              (JObject [(''ab'', JBool True), (''ba'', JBool True)]))
       = score (Validate goRuntimeMixed stringAndNumberPatterns
                  (JObject [(''ab'', JBool True), (''ba'', JBool True)]))
   \<and> Valid (Validate goRuntime stringAndNumberPatterns
              (JObject [(''ab'', JBool True), (''ba'', JBool True)]))
       = Valid (Validate goRuntimeMixed stringAndNumberPatterns
                  (JObject [(''ab'', JBool True), (''ba'', JBool True)]))
   \<and> mset (reportMap (Validate goRuntime stringAndNumberPatterns
                        (JObject [(''ab'', JBool True), (''ba'', JBool True)]))
              (contextString (newJsonContext ''ba'' (Some rootContext))))
       = mset (reportMap (Validate goRuntimeMixed stringAndNumberPatterns
                            (JObject [(''ab'', JBool True), (''ba'', JBool True)]))
                 (contextString (newJsonContext ''ba'' (Some rootContext))))"
  using validation_same_up_to_error_order
          [OF sameLibrary_goRuntimeMixed visitsEachKeyOnce_goRuntime
              visitsEachKeyOnce_goRuntimeMixed,
           of stringAndNumberPatterns "JObject [(''ab'', JBool True), (''ba'', JBool True)]"
              "contextString (newJsonContext ''ba'' (Some rootContext))"]
    sameLibrary_goRuntimeMixed visitsEachKeyOnce_goRuntime visitsEachKeyOnce_goRuntimeMixed
  by blast

text \<open>
  C4 as stated fails. \<open>{"patternProperties": {"a": {"type": "string"}, "b": {"type":
  "number"}}}\<close> on \<open>{"ab": true}\<close>: both patterns match the key, and the two type errors
  at the key are recorded in the order in which \<open>range\<close> visits the patterns. The two runs
  differ in the sequence of errors and in the report at the key's location.
\<close>

theorem error_order_follows_range_order:
  "map Requirement
     (errors (Validate goRuntime stringAndNumberPatterns (JObject [(''ab'', JBool True)])))
     = [ReqTypes [TYPE_STRING], ReqTypes [TYPE_NUMBER],
        ReqPatternProperties [(''a'', stringSchema), (''b'', numberSchema)]]
   \<and> map Requirement
       (errors (Validate goRuntimeRev stringAndNumberPatterns (JObject [(''ab'', JBool True)])))
     = [ReqTypes [TYPE_NUMBER], ReqTypes [TYPE_STRING],
        ReqPatternProperties [(''a'', stringSchema), (''b'', numberSchema)]]
   \<and> errors (Validate goRuntime stringAndNumberPatterns (JObject [(''ab'', JBool True)]))
       \<noteq> errors (Validate goRuntimeRev stringAndNumberPatterns (JObject [(''ab'', JBool True)]))
   \<and> reportMap (Validate goRuntime stringAndNumberPatterns (JObject [(''ab'', JBool True)]))
        (contextString (newJsonContext ''ab'' (Some rootContext)))
       \<noteq> reportMap (Validate goRuntimeRev stringAndNumberPatterns (JObject [(''ab'', JBool True)]))
            (contextString (newJsonContext ''ab'' (Some rootContext)))"
  by code_simp

end
